theory Spec2Isabelle
  imports Complex_Main
begin

section \<open>Python strings\<close>

text \<open>
  A Python \<open>str\<close> is a sequence of code points. It is modelled as a \<open>string\<close>, each
  \<open>char\<close> standing for the code point of the same number, so the model covers the texts
  whose code points are below 256. The character classes below are Python's, cut down to
  that range.
\<close>

abbreviation LF :: char where "LF \<equiv> CHR 0x0A"
abbreviation CR :: char where "CR \<equiv> CHR 0x0D"

definition is_space :: "char \<Rightarrow> bool" where
  \<comment> \<open>\<open>str.isspace\<close>, the characters removed by \<open>strip\<close>, and the class \<open>\s\<close> of \<open>re\<close>\<close>
  "is_space c \<longleftrightarrow> c \<in> set [CHR 0x09, CHR 0x0A, CHR 0x0B, CHR 0x0C, CHR 0x0D,
      CHR 0x1C, CHR 0x1D, CHR 0x1E, CHR 0x1F, CHR 0x20, CHR 0x85, CHR 0xA0]"

definition is_linebreak :: "char \<Rightarrow> bool" where
  \<comment> \<open>the line boundaries of \<open>str.splitlines\<close>\<close>
  "is_linebreak c \<longleftrightarrow> c \<in> set [CHR 0x0A, CHR 0x0B, CHR 0x0C, CHR 0x0D,
      CHR 0x1C, CHR 0x1D, CHR 0x1E, CHR 0x85]"

definition is_digit :: "char \<Rightarrow> bool" where
  \<comment> \<open>the class \<open>\d\<close> of \<open>re\<close>\<close>
  "is_digit c \<longleftrightarrow> c \<in> set ''0123456789''"

definition lstrip :: "string \<Rightarrow> string" where
  "lstrip s = dropWhile is_space s"

definition rstrip :: "string \<Rightarrow> string" where
  "rstrip s = rev (dropWhile is_space (rev s))"

definition strip :: "string \<Rightarrow> string" where
  "strip s = rstrip (lstrip s)"

text \<open>
  \<open>str.splitlines()\<close>: a line ends at a line boundary, \<open>\r\n\<close> counts as one boundary, the
  boundary is dropped, and no empty line is added after a final boundary.
\<close>

fun splitlines_from :: "string \<Rightarrow> string \<Rightarrow> string list" where
  "splitlines_from acc [] = (if acc = [] then [] else [acc])"
| "splitlines_from acc [c] = (if is_linebreak c then [acc] else [acc @ [c]])"
| "splitlines_from acc (c # d # cs) =
     (if c = CR \<and> d = LF then acc # splitlines_from [] cs
      else if is_linebreak c then acc # splitlines_from [] (d # cs)
      else splitlines_from (acc @ [c]) (d # cs))"

definition splitlines :: "string \<Rightarrow> string list" where
  "splitlines s = splitlines_from [] s"

fun join :: "string \<Rightarrow> string list \<Rightarrow> string" where
  \<comment> \<open>\<open>sep.join(xs)\<close>\<close>
  "join sep [] = []"
| "join sep [x] = x"
| "join sep (x # y # ys) = x @ sep @ join sep (y # ys)"

definition lower_table :: "(char \<times> char) list" where
  "lower_table = zip
     (''ABCDEFGHIJKLMNOPQRSTUVWXYZ'' @
      [CHR 0xC0, CHR 0xC1, CHR 0xC2, CHR 0xC3, CHR 0xC4, CHR 0xC5, CHR 0xC6, CHR 0xC7,
       CHR 0xC8, CHR 0xC9, CHR 0xCA, CHR 0xCB, CHR 0xCC, CHR 0xCD, CHR 0xCE, CHR 0xCF,
       CHR 0xD0, CHR 0xD1, CHR 0xD2, CHR 0xD3, CHR 0xD4, CHR 0xD5, CHR 0xD6,
       CHR 0xD8, CHR 0xD9, CHR 0xDA, CHR 0xDB, CHR 0xDC, CHR 0xDD, CHR 0xDE])
     (''abcdefghijklmnopqrstuvwxyz'' @
      [CHR 0xE0, CHR 0xE1, CHR 0xE2, CHR 0xE3, CHR 0xE4, CHR 0xE5, CHR 0xE6, CHR 0xE7,
       CHR 0xE8, CHR 0xE9, CHR 0xEA, CHR 0xEB, CHR 0xEC, CHR 0xED, CHR 0xEE, CHR 0xEF,
       CHR 0xF0, CHR 0xF1, CHR 0xF2, CHR 0xF3, CHR 0xF4, CHR 0xF5, CHR 0xF6,
       CHR 0xF8, CHR 0xF9, CHR 0xFA, CHR 0xFB, CHR 0xFC, CHR 0xFD, CHR 0xFE])"

definition lower :: "string \<Rightarrow> string" where
  \<comment> \<open>\<open>str.lower()\<close>\<close>
  "lower s = map (\<lambda>c. case map_of lower_table c of Some d \<Rightarrow> d | None \<Rightarrow> c) s"

section \<open>Regular expressions\<close>

text \<open>
  The two patterns of the program are built from the pieces below. Each piece takes the
  match of the rest of the pattern as a continuation and tries its alternatives in the
  order of Python's backtracking matcher: a greedy repetition the longest run first, a
  lazy one the shortest first. The first alternative whose continuation succeeds is the
  match, as with \<open>re.match\<close>.
\<close>

fun greedy_star :: "(char \<Rightarrow> bool) \<Rightarrow> (string \<Rightarrow> string \<Rightarrow> 'a option) \<Rightarrow> string \<Rightarrow> string \<Rightarrow> 'a option" where
  "greedy_star P k acc [] = k acc []"
| "greedy_star P k acc (c # cs) =
     (if P c then
        (case greedy_star P k (acc @ [c]) cs of Some r \<Rightarrow> Some r | None \<Rightarrow> k acc (c # cs))
      else k acc (c # cs))"

fun lazy_star :: "(char \<Rightarrow> bool) \<Rightarrow> (string \<Rightarrow> string \<Rightarrow> 'a option) \<Rightarrow> string \<Rightarrow> string \<Rightarrow> 'a option" where
  "lazy_star P k acc [] = k acc []"
| "lazy_star P k acc (c # cs) =
     (case k acc (c # cs) of Some r \<Rightarrow> Some r
      | None \<Rightarrow> if P c then lazy_star P k (acc @ [c]) cs else None)"

definition greedy_plus :: "(char \<Rightarrow> bool) \<Rightarrow> (string \<Rightarrow> string \<Rightarrow> 'a option) \<Rightarrow> string \<Rightarrow> 'a option" where
  "greedy_plus P k s = (case s of [] \<Rightarrow> None | c # cs \<Rightarrow> if P c then greedy_star P k [c] cs else None)"

definition lazy_plus :: "(char \<Rightarrow> bool) \<Rightarrow> (string \<Rightarrow> string \<Rightarrow> 'a option) \<Rightarrow> string \<Rightarrow> 'a option" where
  "lazy_plus P k s = (case s of [] \<Rightarrow> None | c # cs \<Rightarrow> if P c then lazy_star P k [c] cs else None)"

definition optional :: "(char \<Rightarrow> bool) \<Rightarrow> (char option \<Rightarrow> string \<Rightarrow> 'a option) \<Rightarrow> string \<Rightarrow> 'a option" where
  "optional P k s =
     (case s of [] \<Rightarrow> k None []
      | c # cs \<Rightarrow> if P c then (case k (Some c) cs of Some r \<Rightarrow> Some r | None \<Rightarrow> k None s)
                 else k None s)"

definition literal :: "char \<Rightarrow> (string \<Rightarrow> 'a option) \<Rightarrow> string \<Rightarrow> 'a option" where
  "literal c k s = (case s of [] \<Rightarrow> None | d # ds \<Rightarrow> if d = c then k ds else None)"

definition at_end :: "string \<Rightarrow> bool" where
  \<comment> \<open>\<open>$\<close>: the end of the string, or just before a newline that ends the string\<close>
  "at_end s \<longleftrightarrow> s = [] \<or> s = [LF]"

definition any_char :: "char \<Rightarrow> bool" where
  \<comment> \<open>\<open>.\<close>: any character but a newline\<close>
  "any_char c \<longleftrightarrow> c \<noteq> LF"

definition digit_or_dot :: "char \<Rightarrow> bool" where
  "digit_or_dot c \<longleftrightarrow> is_digit c \<or> c = CHR ''.''"

definition is_unit :: "char \<Rightarrow> bool" where
  "is_unit c \<longleftrightarrow> c \<in> set ''KMGT''"

definition size_match :: "string \<Rightarrow> (string \<times> char option) option" where
  \<comment> \<open>\<open>re.match(r'^([\d.]+)([KMGT])?B?$', s)\<close> and its two groups\<close>
  "size_match s =
     greedy_plus digit_or_dot (\<lambda>value.
       optional is_unit (\<lambda>unit.
         optional (\<lambda>c. c = CHR ''B'') (\<lambda>_ rest.
           if at_end rest then Some (value, unit) else None))) s"

definition line_match :: "string \<Rightarrow> (string \<times> string) option" where
  \<comment> \<open>\<open>re.match(r'.*\[(.+?)\]\s+(.+)$', s)\<close> and its two groups\<close>
  "line_match s =
     greedy_star any_char (\<lambda>_.
       literal (CHR ''['') (
         lazy_plus any_char (\<lambda>size_str.
           literal (CHR '']'') (
             greedy_plus is_space (\<lambda>_.
               greedy_plus any_char (\<lambda>name rest.
                 if at_end rest then Some (size_str, name) else None)))))) [] s"

section \<open>Floating point\<close>

text \<open>
  Python's \<open>float\<close> is an IEEE 754 double. The program only builds non-negative floats:
  \<open>Finite m e\<close> stands for the double \<open>m * 2 ^ e\<close> and \<open>Infinity\<close> for \<open>inf\<close>.
  \<open>float(str)\<close> and the multiplication return the double nearest to the exact result,
  ties to the even significand, and \<open>inf\<close> when that is beyond the largest double.
\<close>

datatype pyexc = ValueError | OverflowError

datatype pyfloat = Finite int int | Infinity

function bit_length :: "int \<Rightarrow> nat" where
  \<comment> \<open>the number of binary digits of a positive integer\<close>
  "bit_length n = (if n \<le> 0 then 0 else Suc (bit_length (n div 2)))"
  by pat_completeness auto
termination
  by (relation "measure nat") auto

declare bit_length.simps [simp del]

definition scale :: "int \<Rightarrow> int \<Rightarrow> int \<Rightarrow> int \<times> int" where
  \<comment> \<open>numerator and denominator of \<open>(p / q) / 2 ^ e\<close>\<close>
  "scale p q e = (if 0 \<le> e then (p, q * 2 ^ nat e) else (p * 2 ^ nat (- e), q))"

definition ilog2 :: "int \<Rightarrow> int \<Rightarrow> int" where
  \<comment> \<open>for positive \<open>p\<close> and \<open>q\<close>, the \<open>k\<close> with \<open>2 ^ k \<le> p / q < 2 ^ (k + 1)\<close>\<close>
  "ilog2 p q =
     (let t = int (bit_length p) - int (bit_length q);
          (a, b) = scale p q t
      in if b \<le> a then t else t - 1)"

definition round_half_even :: "int \<Rightarrow> int \<Rightarrow> int" where
  \<comment> \<open>the integer nearest to \<open>p / q\<close>, a tie going to the even one\<close>
  "round_half_even p q =
     (let m = p div q; r = p mod q
      in if q < 2 * r \<or> (2 * r = q \<and> odd m) then m + 1 else m)"

definition round_to_double :: "int \<Rightarrow> int \<Rightarrow> pyfloat" where
  \<comment> \<open>the double nearest to \<open>p / q\<close>, for \<open>0 \<le> p\<close> and \<open>0 < q\<close>: 53 bits of significand,
      exponents from \<open>-1074\<close> (subnormal numbers), overflow to \<open>inf\<close> from \<open>2 ^ 1024\<close>\<close>
  "round_to_double p q =
     (if p = 0 then Finite 0 0
      else
        let e = max (ilog2 p q - 52) (- 1074);
            (a, b) = scale p q e;
            m = round_half_even a b
        in if 971 \<le> e \<and> 2 ^ 53 \<le> m * 2 ^ nat (e - 971) then Infinity else Finite m e)"

definition float_of_int :: "int \<Rightarrow> pyfloat" where
  \<comment> \<open>the conversion of a non-negative \<open>int\<close> operand to \<open>float\<close>; the multipliers of the
      program are powers of two below \<open>2 ^ 53\<close>, which it leaves as they are\<close>
  "float_of_int n = round_to_double n 1"

fun float_mul :: "pyfloat \<Rightarrow> pyfloat \<Rightarrow> pyfloat" where
  \<comment> \<open>\<open>x * y\<close>: the exact product, rounded; the second operand is a positive multiplier,
      so that \<open>inf * y\<close> is \<open>inf\<close>\<close>
  "float_mul (Finite m1 e1) (Finite m2 e2) =
     (let (a, b) = scale (m1 * m2) 1 (- (e1 + e2)) in round_to_double a b)"
| "float_mul _ _ = Infinity"

definition digits_value :: "string \<Rightarrow> int" where
  "digits_value ds = foldl (\<lambda>n c. 10 * n + (of_char c - 48)) 0 ds"

definition float_of_str :: "string \<Rightarrow> pyexc + pyfloat" where
  \<comment> \<open>\<open>float(s)\<close> for a string of digits and dots, which is all that the first group of the
      size pattern can hold: digits with at most one dot and at least one digit, or
      ValueError\<close>
  "float_of_str s =
     (let ip = takeWhile is_digit s; r = dropWhile is_digit s
      in case r of
           [] \<Rightarrow> if ip = [] then Inl ValueError else Inr (round_to_double (digits_value ip) 1)
         | c # fp \<Rightarrow>
             if c = CHR ''.'' \<and> list_all is_digit fp \<and> ip @ fp \<noteq> []
             then Inr (round_to_double (digits_value (ip @ fp)) (10 ^ length fp))
             else Inl ValueError)"

definition int_of_float :: "pyfloat \<Rightarrow> pyexc + int" where
  \<comment> \<open>\<open>int(x)\<close>: truncation, OverflowError on \<open>inf\<close>\<close>
  "int_of_float x =
     (case x of
        Infinity \<Rightarrow> Inl OverflowError
      | Finite m e \<Rightarrow> Inr (if 0 \<le> e then m * 2 ^ nat e else m div 2 ^ nat (- e)))"

section \<open>FileAnalyzer\<close>

record FileEntry =
  path :: string
  size_bytes :: int
  extension :: string

definition SIZE_MULTIPLIERS :: "(char \<times> int) list" where
  "SIZE_MULTIPLIERS =
     [(CHR ''K'', 1024), (CHR ''M'', 1024 ^ 2), (CHR ''G'', 1024 ^ 3), (CHR ''T'', 1024 ^ 4)]"

definition parse_file_size :: "string \<Rightarrow> pyexc + int" where
  "parse_file_size size_str =
     (case size_match (strip size_str) of
        None \<Rightarrow> Inr 0
      | Some (value, unit) \<Rightarrow>
          (case float_of_str value of
             Inl err \<Rightarrow> Inl err
           | Inr bytes_value \<Rightarrow>
               int_of_float
                 (case unit of
                    None \<Rightarrow> bytes_value
                  | Some u \<Rightarrow>
                      float_mul bytes_value
                        (float_of_int (case map_of SIZE_MULTIPLIERS u of Some k \<Rightarrow> k | None \<Rightarrow> 1)))))"

text \<open>
  \<open>Path(name).suffix\<close>, for the POSIX flavour of \<open>pathlib\<close> as in CPython up to 3.13: the
  name of a path is its last component that is neither empty nor \<open>.\<close>, and the suffix
  starts at the last dot of the name, unless that dot is its first or its last character.
\<close>

fun split_on :: "char \<Rightarrow> string \<Rightarrow> string list" where
  \<comment> \<open>\<open>s.split(sep)\<close>\<close>
  "split_on sep [] = [[]]"
| "split_on sep (c # cs) =
     (if c = sep then [] # split_on sep cs
      else (case split_on sep cs of [] \<Rightarrow> [[c]] | x # xs \<Rightarrow> (c # x) # xs))"

definition path_name :: "string \<Rightarrow> string" where
  "path_name p =
     (let tail = filter (\<lambda>x. x \<noteq> [] \<and> x \<noteq> ''.'') (split_on (CHR ''/'') p)
      in if tail = [] then [] else last tail)"

definition rfind :: "char \<Rightarrow> string \<Rightarrow> int" where
  \<comment> \<open>\<open>s.rfind(c)\<close>: the index of the last \<open>c\<close>, or \<open>-1\<close>\<close>
  "rfind c s =
     (if c \<in> set s then int (length s) - 1 - int (length (takeWhile (\<lambda>x. x \<noteq> c) (rev s)))
      else - 1)"

definition suffix :: "string \<Rightarrow> string" where
  "suffix p =
     (let name = path_name p; i = rfind (CHR ''.'') name
      in if 0 < i \<and> i < int (length name) - 1 then drop (nat i) name else [])"

text \<open>
  The loop of \<open>process_file_listing\<close> carries \<open>current_path\<close> and \<open>entries\<close>. The inner
  \<open>while\<close> loop pops the path stack down to the indentation level.
\<close>

function pop_to :: "nat \<Rightarrow> string list \<Rightarrow> string list" where
  "pop_to indent_level current_path =
     (if length current_path > indent_level then pop_to indent_level (butlast current_path)
      else current_path)"
  by pat_completeness auto
termination
  by (relation "measure (\<lambda>(l, p). length p)") auto

declare pop_to.simps [simp del]

definition indent_level :: "string \<Rightarrow> nat" where
  "indent_level line = (length line - length (lstrip line)) div 2"

definition process_line :: "string list \<times> FileEntry list \<Rightarrow> string \<Rightarrow> pyexc + string list \<times> FileEntry list" where
  "process_line st line =
     (let (current_path, entries) = st in
      if strip line = [] then Inr (current_path, entries)
      else
        let current_path = pop_to (indent_level line) current_path in
        case line_match (strip line) of
          None \<Rightarrow> Inr (current_path, entries)
        | Some (size_str, name) \<Rightarrow>
            (case parse_file_size size_str of
               Inl err \<Rightarrow> Inl err
             | Inr fsize \<Rightarrow>
                 let current_path = take (indent_level line) current_path @ [name];
                     full_path = join ''/'' current_path;
                     ext = lower (suffix name)
                 in Inr (current_path,
                         entries @ [\<lparr>path = full_path, size_bytes = fsize, extension = ext\<rparr>])))"

fun process_lines :: "string list \<times> FileEntry list \<Rightarrow> string list \<Rightarrow> pyexc + string list \<times> FileEntry list" where
  "process_lines st [] = Inr st"
| "process_lines st (line # lines) =
     (case process_line st line of Inl err \<Rightarrow> Inl err | Inr st' \<Rightarrow> process_lines st' lines)"

definition process_file_listing :: "string \<Rightarrow> pyexc + FileEntry list" where
  "process_file_listing content =
     (case process_lines ([], []) (splitlines content) of
        Inl err \<Rightarrow> Inl err
      | Inr (current_path, entries) \<Rightarrow> Inr entries)"

section \<open>DataVisualizer\<close>

record SizeDistribution =
  small :: nat
  medium :: nat
  large :: nat

record AnalysisResult =
  total_files :: nat
  total_size :: int
  extension_stats :: "(string \<times> nat) list"
  size_distribution :: SizeDistribution

text \<open>
  \<open>extension_stats\<close> is a \<open>dict\<close>: an association list with distinct keys, in insertion
  order. \<open>dict_set k v d\<close> is \<open>d[k] = v\<close> and \<open>map_of d k\<close> is the lookup \<open>d[k]\<close>. The loop
  reads a key only after it has made sure that the key is there, so the KeyError of a
  missing key cannot happen.
\<close>

definition dict_contains :: "'k \<Rightarrow> ('k \<times> 'v) list \<Rightarrow> bool" where
  "dict_contains k d \<longleftrightarrow> map_of d k \<noteq> None"

fun dict_set :: "'k \<Rightarrow> 'v \<Rightarrow> ('k \<times> 'v) list \<Rightarrow> ('k \<times> 'v) list" where
  "dict_set k v [] = [(k, v)]"
| "dict_set k v ((k', v') # d) = (if k' = k then (k, v) # d else (k', v') # dict_set k v d)"

definition extension_step :: "(string \<times> nat) list \<Rightarrow> FileEntry \<Rightarrow> (string \<times> nat) list" where
  "extension_step stats entry =
     (if extension entry \<noteq> [] then
        let stats = (if \<not> dict_contains (extension entry) stats
                     then dict_set (extension entry) 0 stats else stats)
        in (case map_of stats (extension entry) of
              Some n \<Rightarrow> dict_set (extension entry) (n + 1) stats
            | None \<Rightarrow> stats)
      else stats)"

definition size_step :: "SizeDistribution \<Rightarrow> FileEntry \<Rightarrow> SizeDistribution" where
  "size_step buckets entry =
     (if size_bytes entry < 1024 ^ 2 then buckets\<lparr>small := small buckets + 1\<rparr>
      else if size_bytes entry < 100 * 1024 ^ 2 then buckets\<lparr>medium := medium buckets + 1\<rparr>
      else buckets\<lparr>large := large buckets + 1\<rparr>)"

definition analyze_step :: "AnalysisResult \<Rightarrow> FileEntry \<Rightarrow> AnalysisResult" where
  "analyze_step analysis entry =
     analysis\<lparr>extension_stats := extension_step (extension_stats analysis) entry,
              size_distribution := size_step (size_distribution analysis) entry\<rparr>"

definition analyze_patterns :: "FileEntry list \<Rightarrow> AnalysisResult" where
  "analyze_patterns entries =
     foldl analyze_step
       \<lparr>total_files = length entries,
        total_size = sum_list (map size_bytes entries),
        extension_stats = [],
        size_distribution = \<lparr>small = 0, medium = 0, large = 0\<rparr>\<rparr>
       entries"

section \<open>Notions used by the properties\<close>

text \<open>
  A listing line is an entry line when its trimmed content matches the line pattern. Its
  size token is accepted when \<open>parse_file_size\<close> returns on it. An entry comes from a
  line when it carries the size and the extension of that line and its path ends with the
  name of that line.
\<close>

definition is_entry_line :: "string \<Rightarrow> bool" where
  "is_entry_line line \<longleftrightarrow> line_match (strip line) \<noteq> None"

definition size_token_ok :: "string \<Rightarrow> bool" where
  "size_token_ok line \<longleftrightarrow>
     (case line_match (strip line) of
        None \<Rightarrow> True
      | Some (size_str, name) \<Rightarrow> (case parse_file_size size_str of Inl err \<Rightarrow> False | Inr n \<Rightarrow> True))"

definition entry_from_line :: "string \<Rightarrow> FileEntry \<Rightarrow> bool" where
  "entry_from_line line e \<longleftrightarrow>
     (case line_match (strip line) of
        None \<Rightarrow> False
      | Some (size_str, name) \<Rightarrow>
          parse_file_size size_str = Inr (size_bytes e) \<and>
          extension e = lower (suffix name) \<and>
          (path e = name \<or>
           (length name < length (path e) \<and>
            drop (length (path e) - length name - 1) (path e) = CHR ''/'' # name)))"

text \<open>
  The size pattern in words: a non-empty run of digits and dots, then one of the ten
  endings that the optional unit letter and the optional \<open>B\<close> allow. \<open>unit_suffix\<close> is
  what the pattern does after that run. A run is a plain decimal when it has at most one
  dot and at least one digit. \<open>float_below K x\<close> says that \<open>x\<close> is a finite float of
  value at most \<open>2 ^ K\<close>.
\<close>

definition size_pattern :: "string \<Rightarrow> bool" where
  "size_pattern t \<longleftrightarrow>
     takeWhile digit_or_dot t \<noteq> [] \<and>
     dropWhile digit_or_dot t \<in> set [[], ''K'', ''M'', ''G'', ''T'', ''B'', ''KB'', ''MB'', ''GB'', ''TB'']"

definition unit_suffix :: "string \<Rightarrow> char option option" where
  "unit_suffix r =
     optional is_unit (\<lambda>unit.
       optional (\<lambda>c. c = CHR ''B'') (\<lambda>_ rest. if at_end rest then Some unit else None)) r"

definition plain_decimal :: "string \<Rightarrow> bool" where
  "plain_decimal v \<longleftrightarrow> length (filter (\<lambda>c. c = CHR ''.'') v) \<le> 1 \<and> list_ex is_digit v"

definition float_below :: "nat \<Rightarrow> pyfloat \<Rightarrow> bool" where
  "float_below K x \<longleftrightarrow>
     (case x of Infinity \<Rightarrow> False
      | Finite m e \<Rightarrow> 0 \<le> m \<and> e \<le> int K \<and> m \<le> 2 ^ nat (int K - e))"

text \<open>
  \<open>float_val m e\<close> is the real number that the float \<open>Finite m e\<close> stands for, and
  \<open>decimal_value v\<close> the real number that a decimal numeral \<open>v\<close> (digits, with or without
  a fraction) denotes. \<open>truncated_product m e k\<close> is what \<open>int\<close> makes of the exact
  product of the float \<open>m * 2 ^ e\<close> and the integer \<open>k\<close>: its integer part, or
  OverflowError from \<open>2 ^ 1024\<close> on, where the float product is \<open>inf\<close>.
\<close>

definition float_val :: "int \<Rightarrow> int \<Rightarrow> real" where
  "float_val m e = of_int m * 2 powi e"

definition decimal_value :: "string \<Rightarrow> real" where
  "decimal_value v =
     real_of_int (digits_value (filter is_digit v)) / 10 ^ (length (dropWhile is_digit v) - 1)"

definition truncated_product :: "int \<Rightarrow> int \<Rightarrow> int \<Rightarrow> pyexc + int" where
  "truncated_product m e k =
     (if float_val m e * real_of_int k < 2 powi 1024 then Inr \<lfloor>float_val m e * real_of_int k\<rfloor>
      else Inl OverflowError)"

text \<open>
  The recognized format as the specification words it: one or more digits, optionally a
  decimal point and more digits, optionally one unit letter from K, M, G, T, optionally a
  literal \<open>B\<close>.
\<close>

definition spec_size_format :: "string \<Rightarrow> bool" where
  "spec_size_format t \<longleftrightarrow>
     (let r1 = dropWhile is_digit t;
          r2 = (case r1 of
                  [] \<Rightarrow> r1
                | c # r \<Rightarrow> if c = CHR ''.'' \<and> takeWhile is_digit r \<noteq> [] then dropWhile is_digit r else r1)
      in takeWhile is_digit t \<noteq> [] \<and>
         r2 \<in> set [[], ''K'', ''M'', ''G'', ''T'', ''B'', ''KB'', ''MB'', ''GB'', ''TB''])"

section \<open>The statistics of \<open>analyze_patterns\<close>\<close>

lemma dict_set_sum_absent:
  "map_of d k = None \<Longrightarrow> sum_list (map snd (dict_set k v d)) = sum_list (map snd d) + (v::nat)"
  by (induction d) (auto split: if_splits)

lemma dict_set_sum_present:
  "map_of d k = Some n \<Longrightarrow> sum_list (map snd (dict_set k v d)) + n = sum_list (map snd d) + (v::nat)"
  by (induction d) (auto split: if_splits)

lemma map_of_dict_set: "map_of (dict_set k v d) k' = (if k' = k then Some v else map_of d k')"
  by (induction d) auto

lemma keys_dict_set: "fst ` set (dict_set k v d) = insert k (fst ` set d)"
proof (induction d)
  case Nil
  show ?case by simp
next
  case (Cons p d)
  obtain k' v' where p: "p = (k', v')" by (cases p)
  show ?case
    using Cons.IH by (cases "k' = k") (simp_all add: p insert_commute)
qed

lemma distinct_dict_set: "distinct (map fst d) \<Longrightarrow> distinct (map fst (dict_set k v d))"
  by (induction d) (auto simp: keys_dict_set)

lemma extension_step_sum:
  "sum_list (map snd (extension_step stats e)) =
     sum_list (map snd stats) + (if extension e \<noteq> [] then 1 else 0)"
proof (cases "extension e = []")
  case True
  then show ?thesis by (simp add: extension_step_def)
next
  case False
  show ?thesis
  proof (cases "map_of stats (extension e)")
    case None
    have "sum_list (map snd (dict_set (extension e) (Suc 0) (dict_set (extension e) 0 stats))) + 0
        = sum_list (map snd (dict_set (extension e) 0 stats)) + Suc 0"
      by (rule dict_set_sum_present) (simp add: map_of_dict_set)
    then show ?thesis
      using False None
      by (simp add: extension_step_def dict_contains_def map_of_dict_set dict_set_sum_absent)
  next
    case (Some n)
    then show ?thesis
      using False dict_set_sum_present [OF Some, of "n + 1"]
      by (simp add: extension_step_def dict_contains_def)
  qed
qed

lemma extension_step_distinct:
  "distinct (map fst stats) \<Longrightarrow> distinct (map fst (extension_step stats e))"
  by (auto simp: extension_step_def Let_def distinct_dict_set split: option.splits)

lemma size_step_total:
  "small (size_step d e) + medium (size_step d e) + large (size_step d e) = small d + medium d + large d + 1"
  by (simp add: size_step_def)

lemma size_step_small:
  "small (size_step d e) = small d + (if size_bytes e < 2 ^ 20 then 1 else 0)"
  by (simp add: size_step_def)

lemma size_step_medium:
  "medium (size_step d e) = medium d + (if 2 ^ 20 \<le> size_bytes e \<and> size_bytes e < 100 * 2 ^ 20 then 1 else 0)"
  by (simp add: size_step_def)

lemma size_step_large:
  "large (size_step d e) = large d + (if 100 * 2 ^ 20 \<le> size_bytes e then 1 else 0)"
  by (simp add: size_step_def)

lemma analyze_step_sel:
  "total_files (analyze_step a e) = total_files a"
  "total_size (analyze_step a e) = total_size a"
  "extension_stats (analyze_step a e) = extension_step (extension_stats a) e"
  "size_distribution (analyze_step a e) = size_step (size_distribution a) e"
  by (simp_all add: analyze_step_def)

lemma foldl_analyze_total_files: "total_files (foldl analyze_step a es) = total_files a"
  by (induction es arbitrary: a) (simp_all add: analyze_step_sel)

lemma foldl_analyze_total_size: "total_size (foldl analyze_step a es) = total_size a"
  by (induction es arbitrary: a) (simp_all add: analyze_step_sel)

lemma foldl_analyze_buckets:
  "small (size_distribution (foldl analyze_step a es)) + medium (size_distribution (foldl analyze_step a es))
     + large (size_distribution (foldl analyze_step a es))
   = small (size_distribution a) + medium (size_distribution a) + large (size_distribution a) + length es"
proof (induction es arbitrary: a)
  case Nil
  show ?case by simp
next
  case (Cons e es)
  show ?case
    using size_step_total [of "size_distribution a" e]
    by (simp add: Cons.IH analyze_step_sel)
qed

lemma foldl_analyze_extension_sum:
  "sum_list (map snd (extension_stats (foldl analyze_step a es)))
   = sum_list (map snd (extension_stats a)) + length (filter (\<lambda>e. extension e \<noteq> []) es)"
  by (induction es arbitrary: a) (simp_all add: analyze_step_sel extension_step_sum)

lemma foldl_analyze_distinct:
  "distinct (map fst (extension_stats a)) \<Longrightarrow> distinct (map fst (extension_stats (foldl analyze_step a es)))"
  by (induction es arbitrary: a) (simp_all add: analyze_step_sel extension_step_distinct)

lemma foldl_analyze_small:
  "small (size_distribution (foldl analyze_step a es))
   = small (size_distribution a) + length (filter (\<lambda>e. size_bytes e < 2 ^ 20) es)"
  by (induction es arbitrary: a) (simp_all add: analyze_step_sel size_step_small)

lemma foldl_analyze_medium:
  "medium (size_distribution (foldl analyze_step a es))
   = medium (size_distribution a) + length (filter (\<lambda>e. 2 ^ 20 \<le> size_bytes e \<and> size_bytes e < 100 * 2 ^ 20) es)"
  by (induction es arbitrary: a) (simp_all add: analyze_step_sel size_step_medium)

lemma foldl_analyze_large:
  "large (size_distribution (foldl analyze_step a es))
   = large (size_distribution a) + length (filter (\<lambda>e. 100 * 2 ^ 20 \<le> size_bytes e) es)"
  by (induction es arbitrary: a) (simp_all add: analyze_step_sel size_step_large)

text \<open>
  Claim C4. For every sequence of entries, the three bucket counts of \<open>size_distribution\<close>
  add up to \<open>total_files\<close>, and the values of \<open>extension_stats\<close> add up to the number of
  entries with a non-empty extension. The keys of \<open>extension_stats\<close> are distinct, so the
  association list is a dictionary and the sum of its second components is the sum of the
  dictionary's values.
\<close>

theorem analyze_patterns_invariants:
  "small (size_distribution (analyze_patterns entries))
     + medium (size_distribution (analyze_patterns entries))
     + large (size_distribution (analyze_patterns entries))
   = total_files (analyze_patterns entries)
   \<and> sum_list (map snd (extension_stats (analyze_patterns entries)))
     = length (filter (\<lambda>e. extension e \<noteq> []) entries)
   \<and> distinct (map fst (extension_stats (analyze_patterns entries)))"
  unfolding analyze_patterns_def
  by (simp add: foldl_analyze_buckets foldl_analyze_total_files foldl_analyze_extension_sum foldl_analyze_distinct)

text \<open>
  Claim C5. Every entry is counted in exactly one bucket, by half-open ranges: \<open>small\<close>
  counts the entries below \<open>2 ^ 20\<close> bytes, \<open>medium\<close> those from \<open>2 ^ 20\<close> and below
  \<open>100 * 2 ^ 20\<close>, \<open>large\<close> those from \<open>100 * 2 ^ 20\<close>. An entry of 1048576 bytes is
  medium, one of 1048575 bytes is small, one of 104857600 bytes is large.
\<close>

theorem analyze_patterns_buckets:
  "small (size_distribution (analyze_patterns entries)) = length (filter (\<lambda>e. size_bytes e < 2 ^ 20) entries)
   \<and> medium (size_distribution (analyze_patterns entries))
       = length (filter (\<lambda>e. 2 ^ 20 \<le> size_bytes e \<and> size_bytes e < 100 * 2 ^ 20) entries)
   \<and> large (size_distribution (analyze_patterns entries)) = length (filter (\<lambda>e. 100 * 2 ^ 20 \<le> size_bytes e) entries)
   \<and> size_distribution (analyze_patterns [\<lparr>path = p, size_bytes = 1048576, extension = x\<rparr>])
       = \<lparr>small = 0, medium = 1, large = 0\<rparr>
   \<and> size_distribution (analyze_patterns [\<lparr>path = p, size_bytes = 1048575, extension = x\<rparr>])
       = \<lparr>small = 1, medium = 0, large = 0\<rparr>
   \<and> size_distribution (analyze_patterns [\<lparr>path = p, size_bytes = 104857600, extension = x\<rparr>])
       = \<lparr>small = 0, medium = 0, large = 1\<rparr>"
  unfolding analyze_patterns_def
  by (simp add: foldl_analyze_small foldl_analyze_medium foldl_analyze_large analyze_step_sel size_step_def)

section \<open>The listing parser\<close>

lemma pop_to_take: "pop_to n p = take n p"
proof (induction n p rule: pop_to.induct)
  case (1 n p)
  show ?case
  proof (cases "length p > n")
    case True
    then have "pop_to n p = take n (butlast p)"
      using 1 by (simp add: pop_to.simps [of n p])
    also have "\<dots> = take n p"
      using True by (simp add: take_butlast)
    finally show ?thesis .
  next
    case False
    then show ?thesis by (simp add: pop_to.simps [of n p])
  qed
qed

lemma line_match_Nil: "line_match [] = None"
  by (simp add: line_match_def literal_def)

lemma process_line_blank:
  "strip line = [] \<Longrightarrow> process_line (cp, es) line = Inr (cp, es)"
  by (simp add: process_line_def)

lemma process_line_nomatch:
  "strip line \<noteq> [] \<Longrightarrow> line_match (strip line) = None \<Longrightarrow>
   process_line (cp, es) line = Inr (take (indent_level line) cp, es)"
  by (simp add: process_line_def pop_to_take)

lemma process_line_match:
  "line_match (strip line) = Some (size_str, name) \<Longrightarrow>
   process_line (cp, es) line =
     (case parse_file_size size_str of
        Inl err \<Rightarrow> Inl err
      | Inr n \<Rightarrow>
          Inr (take (indent_level line) cp @ [name],
               es @ [\<lparr>path = join ''/'' (take (indent_level line) cp @ [name]),
                      size_bytes = n, extension = lower (suffix name)\<rparr>]))"
proof -
  assume m: "line_match (strip line) = Some (size_str, name)"
  then have "strip line \<noteq> []"
    using line_match_Nil by auto
  then show ?thesis
    using m by (simp add: process_line_def pop_to_take Let_def split: sum.splits)
qed

lemma join_snoc: "join sep (xs @ [x]) = (if xs = [] then x else join sep xs @ sep @ x)"
  by (induction sep xs rule: join.induct) auto

lemma process_line_not_entry:
  "\<not> is_entry_line line \<Longrightarrow> \<exists>cp'. process_line (cp, es) line = Inr (cp', es)"
proof (cases "strip line = []")
  case True
  then show ?thesis by (simp add: process_line_blank)
next
  case False
  assume "\<not> is_entry_line line"
  then have "line_match (strip line) = None"
    unfolding is_entry_line_def by blast
  with False show ?thesis by (simp add: process_line_nomatch)
qed

lemma process_line_entry:
  assumes "is_entry_line line" "process_line (cp, es) line = Inr (cp', es')"
  shows "\<exists>e. es' = es @ [e] \<and> entry_from_line line e"
proof -
  obtain size_str name where m: "line_match (strip line) = Some (size_str, name)"
    using assms(1) by (auto simp: is_entry_line_def)
  obtain n where n: "parse_file_size size_str = Inr n"
    using assms(2) by (auto simp: process_line_match [OF m] split: sum.splits)
  let ?p = "take (indent_level line) cp"
  let ?e = "\<lparr>path = join ''/'' (?p @ [name]), size_bytes = n, extension = lower (suffix name)\<rparr>"
  have "es' = es @ [?e]"
    using assms(2) by (auto simp: process_line_match [OF m] n)
  moreover have "entry_from_line line ?e"
    by (simp add: entry_from_line_def m n join_snoc)
  ultimately show ?thesis by blast
qed

lemma process_line_entry_raises:
  assumes "is_entry_line line"
  shows "(\<exists>st'. process_line (cp, es) line = Inr st') \<longleftrightarrow> size_token_ok line"
proof -
  obtain size_str name where m: "line_match (strip line) = Some (size_str, name)"
    using assms by (auto simp: is_entry_line_def)
  show ?thesis
    by (simp add: process_line_match [OF m] size_token_ok_def m split: sum.splits)
qed

lemma process_lines_entries:
  "process_lines (cp, es) ls = Inr (cp', es') \<Longrightarrow>
   \<exists>new. es' = es @ new \<and> list_all2 entry_from_line (filter is_entry_line ls) new"
proof (induction ls arbitrary: cp es)
  case Nil
  then show ?case by simp
next
  case (Cons l ls)
  from Cons.prems obtain cp1 es1 where
    step: "process_line (cp, es) l = Inr (cp1, es1)" and
    rest: "process_lines (cp1, es1) ls = Inr (cp', es')"
    by (auto split: sum.splits)
  from Cons.IH [OF rest] obtain new where
    new: "es' = es1 @ new" "list_all2 entry_from_line (filter is_entry_line ls) new"
    by blast
  show ?case
  proof (cases "is_entry_line l")
    case True
    from process_line_entry [OF True step] obtain e where
      e: "es1 = es @ [e]" "entry_from_line l e" by blast
    have "es' = es @ (e # new)" using new(1) e(1) by simp
    moreover have "list_all2 entry_from_line (filter is_entry_line (l # ls)) (e # new)"
      using True e(2) new(2) by simp
    ultimately show ?thesis by blast
  next
    case False
    from process_line_not_entry [OF False, of cp es] step have "es1 = es" by auto
    then show ?thesis using new False by auto
  qed
qed

lemma process_lines_returns:
  "(\<exists>st'. process_lines (cp, es) ls = Inr st') \<longleftrightarrow> list_all size_token_ok (filter is_entry_line ls)"
proof (induction ls arbitrary: cp es)
  case Nil
  show ?case by simp
next
  case (Cons l ls)
  show ?case
  proof (cases "is_entry_line l")
    case True
    show ?thesis
    proof (cases "size_token_ok l")
      case ok: True
      then obtain cp1 es1 where step: "process_line (cp, es) l = Inr (cp1, es1)"
        using process_line_entry_raises [OF True, of cp es] by auto
      show ?thesis
        using True ok Cons.IH [of cp1 es1] by (simp add: step)
    next
      case bad: False
      then have "\<not> (\<exists>st'. process_line (cp, es) l = Inr st')"
        using process_line_entry_raises [OF True, of cp es] by simp
      then show ?thesis
        using True bad by (auto split: sum.splits)
    qed
  next
    case False
    then obtain cp1 where step: "process_line (cp, es) l = Inr (cp1, es)"
      using process_line_not_entry [of l cp es] by blast
    show ?thesis
      using False Cons.IH [of cp1 es] by (simp add: step)
  qed
qed

text \<open>
  Claim C7. \<open>process_file_listing\<close> returns exactly when the size token of every entry
  line is accepted. Whenever it returns, the number of entries is the number of entry
  lines of the text, and the entries come from the entry lines one by one, in the order of
  the lines.
\<close>

theorem process_file_listing_count_and_order:
  "((\<exists>entries. process_file_listing content = Inr entries) \<longleftrightarrow>
      list_all size_token_ok (filter is_entry_line (splitlines content))) \<and>
   (\<forall>entries. process_file_listing content = Inr entries \<longrightarrow>
      length entries = length (filter is_entry_line (splitlines content)) \<and>
      list_all2 entry_from_line (filter is_entry_line (splitlines content)) entries)"
proof (intro conjI allI impI)
  have "(\<exists>entries. process_file_listing content = Inr entries) \<longleftrightarrow>
        (\<exists>st'. process_lines ([], []) (splitlines content) = Inr st')"
    by (auto simp: process_file_listing_def split: sum.splits)
  then show "(\<exists>entries. process_file_listing content = Inr entries) \<longleftrightarrow>
      list_all size_token_ok (filter is_entry_line (splitlines content))"
    using process_lines_returns [of "[]" "[]" "splitlines content"] by simp
next
  fix entries
  assume r: "process_file_listing content = Inr entries"
  then obtain cp' where "process_lines ([], []) (splitlines content) = Inr (cp', entries)"
    by (auto simp: process_file_listing_def split: sum.splits)
  from process_lines_entries [OF this]
  have a: "list_all2 entry_from_line (filter is_entry_line (splitlines content)) entries"
    by simp
  then show "list_all2 entry_from_line (filter is_entry_line (splitlines content)) entries" .
  from a show "length entries = length (filter is_entry_line (splitlines content))"
    by (simp add: list_all2_lengthD)
qed

theorem process_file_listing_count_and_order_witness:
  "process_file_listing (''[1K] a'' @ [LF] @ ''    skipped'' @ [LF] @ ''  [x] b.TXT'')
     = Inr [\<lparr>path = ''a'', size_bytes = 1024, extension = []\<rparr>,
            \<lparr>path = ''a/b.TXT'', size_bytes = 0, extension = ''.txt''\<rparr>]
   \<and> length [\<lparr>path = ''a'', size_bytes = 1024, extension = []\<rparr>,
              \<lparr>path = ''a/b.TXT'', size_bytes = 0, extension = ''.txt''\<rparr>]
       = length (filter is_entry_line
           (splitlines (''[1K] a'' @ [LF] @ ''    skipped'' @ [LF] @ ''  [x] b.TXT'')))
   \<and> list_all2 entry_from_line
         (filter is_entry_line
           (splitlines (''[1K] a'' @ [LF] @ ''    skipped'' @ [LF] @ ''  [x] b.TXT'')))
         [\<lparr>path = ''a'', size_bytes = 1024, extension = []\<rparr>,
          \<lparr>path = ''a/b.TXT'', size_bytes = 0, extension = ''.txt''\<rparr>]"
proof -
  let ?text = "''[1K] a'' @ [LF] @ ''    skipped'' @ [LF] @ ''  [x] b.TXT''"
  let ?entries = "[\<lparr>path = ''a'', size_bytes = 1024, extension = []\<rparr>,
                   \<lparr>path = ''a/b.TXT'', size_bytes = 0, extension = ''.txt''\<rparr>]"
  have r: "process_file_listing ?text = Inr ?entries"
    by code_simp
  from process_file_listing_count_and_order [of ?text] r
  have "length ?entries = length (filter is_entry_line (splitlines ?text))
        \<and> list_all2 entry_from_line (filter is_entry_line (splitlines ?text)) ?entries"
    by blast
  with r show ?thesis by blast
qed

text \<open>
  Claim C3, as amended. A non-blank line whose trimmed content does not match the line
  pattern emits no entry and cuts the path stack down to the indentation level of that
  line. The stack is unchanged when it is not deeper than that level, and a following
  non-blank line that is not indented more than the skipped line is processed as if the
  skipped line were absent.
\<close>

theorem nonmatching_line_truncates_stack:
  assumes "strip line \<noteq> []" and "line_match (strip line) = None"
  shows "process_line (current_path, entries) line
           = Inr (take (indent_level line) current_path, entries)
         \<and> (length current_path \<le> indent_level line \<longrightarrow>
              process_line (current_path, entries) line = Inr (current_path, entries))
         \<and> (strip line' \<noteq> [] \<and> indent_level line' \<le> indent_level line \<longrightarrow>
              process_lines (current_path, entries) (line # line' # rest)
                = process_lines (current_path, entries) (line' # rest))"
proof (intro conjI impI)
  show step: "process_line (current_path, entries) line
           = Inr (take (indent_level line) current_path, entries)"
    using assms by (rule process_line_nomatch)
  show "process_line (current_path, entries) line = Inr (current_path, entries)"
    if "length current_path \<le> indent_level line"
    using that step by simp
  show "process_lines (current_path, entries) (line # line' # rest)
          = process_lines (current_path, entries) (line' # rest)"
    if h: "strip line' \<noteq> [] \<and> indent_level line' \<le> indent_level line"
  proof -
    have t: "take (indent_level line') (take (indent_level line) current_path)
               = take (indent_level line') current_path"
      using h by (simp add: min_absorb1)
    have "process_line (take (indent_level line) current_path, entries) line'
            = process_line (current_path, entries) line'"
      using h by (simp add: process_line_def pop_to_take t)
    then show ?thesis by (simp add: step)
  qed
qed

theorem nonmatching_line_truncates_stack_witness:
  "strip ''  note'' \<noteq> [] \<and> line_match (strip ''  note'') = None
   \<and> process_line ([''root'', ''sub'', ''deep''], []) ''  note'' = Inr ([''root''], [])"
proof -
  have a: "strip ''  note'' \<noteq> []" by code_simp
  have b: "line_match (strip ''  note'') = None" by code_simp
  have c: "take (indent_level ''  note'') [''root'', ''sub'', ''deep''] = [''root'']"
    by code_simp
  from nonmatching_line_truncates_stack [OF a b, of "[''root'', ''sub'', ''deep'']" "[]"]
  have "process_line ([''root'', ''sub'', ''deep''], []) ''  note''
          = Inr (take (indent_level ''  note'') [''root'', ''sub'', ''deep''], [])"
    by blast
  with a b c show ?thesis by simp
qed

text \<open>
  The claim as first stated says that such a line leaves the stack unchanged, so that the
  next entry has the path it would have without the line. In the listing below the line
  \<open>x\<close> is at indentation level 0: it empties the stack, and the entry \<open>f\<close> that follows
  at level 2 gets the path \<open>f\<close> instead of \<open>root/sub/f\<close>.
\<close>

theorem nonmatching_line_changes_stack_counterexample:
  "strip ''x'' \<noteq> [] \<and> line_match (strip ''x'') = None
   \<and> process_line ([''root'', ''sub''], []) ''x'' = Inr ([], [])
   \<and> process_file_listing (''[1] root'' @ [LF] @ ''  [1] sub'' @ [LF] @ ''x'' @ [LF] @ ''    [1] f'')
       = Inr [\<lparr>path = ''root'', size_bytes = 1, extension = []\<rparr>,
              \<lparr>path = ''root/sub'', size_bytes = 1, extension = []\<rparr>,
              \<lparr>path = ''f'', size_bytes = 1, extension = []\<rparr>]
   \<and> process_file_listing (''[1] root'' @ [LF] @ ''  [1] sub'' @ [LF] @ ''    [1] f'')
       = Inr [\<lparr>path = ''root'', size_bytes = 1, extension = []\<rparr>,
              \<lparr>path = ''root/sub'', size_bytes = 1, extension = []\<rparr>,
              \<lparr>path = ''root/sub/f'', size_bytes = 1, extension = []\<rparr>]"
  by code_simp

text \<open>
  Claim C2. For every input text \<open>process_file_listing\<close> is to return a list of entries,
  a malformed line being skipped and an unparseable size token counting as zero bytes. The
  program does not do so on the line \<open>[1.2.3] x\<close>: the size pattern admits any run of
  digits and dots, \<open>float\<close> raises ValueError on a run with two dots, and the exception
  leaves \<open>parse_file_size\<close> and \<open>process_file_listing\<close>, which returns no entries at all.
\<close>

theorem process_file_listing_raises:
  "process_file_listing ''[1.2.3] x'' = Inl ValueError"
  by code_simp

text \<open>
  Claim C8. The four-line example listing gives four entries with the paths \<open>root\<close>,
  \<open>root/a.txt\<close>, \<open>root/sub\<close>, \<open>root/sub/b.log\<close> and the extensions \<open>''\<close>, \<open>.txt\<close>,
  \<open>''\<close>, \<open>.log\<close>, in that order.
\<close>

theorem example_listing:
  "process_file_listing
     (''[ 10M] root'' @ [LF] @ ''  [ 1M] a.txt'' @ [LF] @ ''  [ 2M] sub'' @ [LF] @ ''    [500K] b.log'')
   = Inr [\<lparr>path = ''root'', size_bytes = 10485760, extension = []\<rparr>,
          \<lparr>path = ''root/a.txt'', size_bytes = 1048576, extension = ''.txt''\<rparr>,
          \<lparr>path = ''root/sub'', size_bytes = 2097152, extension = []\<rparr>,
          \<lparr>path = ''root/sub/b.log'', size_bytes = 512000, extension = ''.log''\<rparr>]"
  by code_simp

text \<open>
  Claim C9. The empty text gives no entries, and no entries give an analysis with
  \<open>total_files\<close> 0, \<open>total_size\<close> 0, no extension and three empty buckets.
\<close>

theorem empty_input:
  "process_file_listing [] = Inr []
   \<and> analyze_patterns []
       = \<lparr>total_files = 0, total_size = 0, extension_stats = [],
          size_distribution = \<lparr>small = 0, medium = 0, large = 0\<rparr>\<rparr>"
  by code_simp

section \<open>Extensions\<close>

lemma split_on_nonempty: "split_on sep s \<noteq> []"
  by (induction s) (auto split: list.splits)

lemma split_on_no_char:
  "c \<notin> set s \<Longrightarrow> x \<in> set (split_on sep s) \<Longrightarrow> c \<notin> set x"
proof (induction s arbitrary: x)
  case Nil
  then show ?case by simp
next
  case (Cons a s)
  obtain y ys where ys: "split_on sep s = y # ys"
    using split_on_nonempty [of sep s] by (cases "split_on sep s") auto
  have ih: "\<And>z. z \<in> set (y # ys) \<Longrightarrow> c \<notin> set z"
    using Cons by (simp add: ys)
  show ?case
  proof (cases "a = sep")
    case True
    then show ?thesis using Cons.prems ih by (auto simp: ys)
  next
    case False
    then have "x = a # y \<or> x \<in> set ys"
      using Cons.prems(2) by (simp add: ys)
    then show ?thesis using Cons.prems(1) ih by auto
  qed
qed

lemma split_on_leading:
  assumes "c \<notin> set t" "c \<noteq> sep" "x \<in> set (split_on sep (c # t))"
  shows "c \<notin> set (tl x)"
proof -
  obtain y ys where ys: "split_on sep t = y # ys"
    using split_on_nonempty [of sep t] by (cases "split_on sep t") auto
  have nd: "c \<notin> set z" if "z \<in> set (y # ys)" for z
  proof -
    from that have "z \<in> set (split_on sep t)" by (simp add: ys)
    then show ?thesis by (rule split_on_no_char [OF assms(1)])
  qed
  have "x = c # y \<or> x \<in> set ys"
    using assms(2,3) by (simp add: ys)
  then show ?thesis
  proof
    assume "x = c # y" then show ?thesis using nd by simp
  next
    assume "x \<in> set ys"
    then have "c \<notin> set x" using nd by simp
    then show ?thesis by (cases x) auto
  qed
qed

lemma split_on_trailing:
  "c \<notin> set (butlast s) \<Longrightarrow> x \<in> set (split_on sep s) \<Longrightarrow> c \<notin> set (butlast x)"
proof (induction s arbitrary: x)
  case Nil
  then show ?case by simp
next
  case (Cons a s)
  obtain y ys where ys: "split_on sep s = y # ys"
    using split_on_nonempty [of sep s] by (cases "split_on sep s") auto
  show ?case
  proof (cases "s = []")
    case True
    then show ?thesis using Cons.prems(2) by (auto split: if_splits)
  next
    case False
    then have a: "a \<noteq> c" and b: "c \<notin> set (butlast s)"
      using Cons.prems(1) by auto
    have ih: "\<And>z. z \<in> set (y # ys) \<Longrightarrow> c \<notin> set (butlast z)"
      using Cons.IH [OF b] by (simp add: ys)
    show ?thesis
    proof (cases "a = sep")
      case True
      then show ?thesis using Cons.prems(2) ih by (auto simp: ys)
    next
      case False
      then have "x = a # y \<or> x \<in> set ys"
        using Cons.prems(2) by (simp add: ys)
      then show ?thesis
      proof
        assume "x = a # y"
        then show ?thesis using a ih [of y] by (cases y) auto
      next
        assume "x \<in> set ys"
        then show ?thesis using ih by simp
      qed
    qed
  qed
qed

lemma path_name_component:
  "path_name p = [] \<or> path_name p \<in> set (split_on (CHR ''/'') p)"
proof -
  let ?tail = "filter (\<lambda>x. x \<noteq> [] \<and> x \<noteq> ''.'') (split_on (CHR ''/'') p)"
  show ?thesis
  proof (cases "?tail = []")
    case True
    then show ?thesis by (simp add: path_name_def)
  next
    case False
    then have "last ?tail \<in> set ?tail" by (rule last_in_set)
    then have "last ?tail \<in> set (split_on (CHR ''/'') p)" by simp
    then show ?thesis using False by (simp add: path_name_def Let_def)
  qed
qed

lemma rfind_absent: "c \<notin> set s \<Longrightarrow> rfind c s = - 1"
  by (simp add: rfind_def)

lemma rfind_leading: "c \<notin> set t \<Longrightarrow> rfind c (c # t) = 0"
proof -
  assume "c \<notin> set t"
  then have "takeWhile (\<lambda>x. x \<noteq> c) (rev t @ [c]) = rev t"
    by (subst takeWhile_append2) auto
  then show ?thesis by (simp add: rfind_def)
qed

lemma rfind_trailing: "rfind c (t @ [c]) = int (length t)"
  by (simp add: rfind_def)

lemma suffix_rule:
  assumes "rfind (CHR ''.'') (path_name p) \<le> 0
           \<or> rfind (CHR ''.'') (path_name p) = int (length (path_name p)) - 1"
  shows "suffix p = []"
  using assms by (auto simp: suffix_def Let_def)

lemma rfind_tl:
  assumes "c \<notin> set (tl x)" shows "rfind c x \<le> 0"
proof (cases x)
  case Nil
  then show ?thesis by (simp add: rfind_def)
next
  case (Cons a t)
  show ?thesis
  proof (cases "a = c")
    case True
    then show ?thesis using assms Cons rfind_leading [of c t] by simp
  next
    case False
    then have "c \<notin> set x" using assms Cons by simp
    then show ?thesis by (simp add: rfind_absent)
  qed
qed

lemma rfind_butlast:
  assumes "c \<notin> set (butlast x)"
  shows "rfind c x \<le> 0 \<or> rfind c x = int (length x) - 1"
proof (cases x rule: rev_cases)
  case Nil
  then show ?thesis by (simp add: rfind_def)
next
  case (snoc t a)
  show ?thesis
  proof (cases "a = c")
    case True
    then show ?thesis using snoc rfind_trailing [of c t] by simp
  next
    case False
    then have "c \<notin> set x" using assms snoc by simp
    then show ?thesis by (simp add: rfind_absent)
  qed
qed

lemma suffix_leading_dot:
  assumes "CHR ''.'' \<notin> set t"
  shows "suffix (CHR ''.'' # t) = []"
proof -
  let ?n = "path_name (CHR ''.'' # t)"
  have "rfind (CHR ''.'') ?n \<le> 0"
  proof (cases "?n = []")
    case True
    then show ?thesis by (simp add: rfind_def)
  next
    case False
    then have "?n \<in> set (split_on (CHR ''/'') (CHR ''.'' # t))"
      using path_name_component [of "CHR ''.'' # t"] by simp
    then have "CHR ''.'' \<notin> set (tl ?n)"
      using split_on_leading [OF assms, of "CHR ''/''" ?n] by simp
    then show ?thesis by (rule rfind_tl)
  qed
  then show ?thesis by (simp add: suffix_rule)
qed

lemma suffix_trailing_dot:
  assumes "CHR ''.'' \<notin> set (butlast name)"
  shows "suffix name = []"
proof -
  let ?n = "path_name name"
  have "rfind (CHR ''.'') ?n \<le> 0 \<or> rfind (CHR ''.'') ?n = int (length ?n) - 1"
  proof (cases "?n = []")
    case True
    then show ?thesis by (simp add: rfind_def)
  next
    case False
    then have "?n \<in> set (split_on (CHR ''/'') name)"
      using path_name_component [of name] by simp
    then have "CHR ''.'' \<notin> set (butlast ?n)"
      using split_on_trailing [OF assms] by simp
    then show ?thesis by (rule rfind_butlast)
  qed
  then show ?thesis by (rule suffix_rule)
qed

lemma lower_Nil: "lower [] = []"
  by (simp add: lower_def)

text \<open>
  Claim C10. When the name of an entry line begins with a dot and has no other dot, or
  has a final dot and no other dot, the entry that the line emits has the empty extension.
\<close>

theorem dotfile_extension_empty:
  assumes "line_match (strip line) = Some (size_str, name)"
    and "process_line (current_path, entries) line = Inr (current_path', entries')"
    and "(\<exists>t. name = CHR ''.'' # t \<and> CHR ''.'' \<notin> set t)
         \<or> (\<exists>t. name = t @ ''.'' \<and> CHR ''.'' \<notin> set t)"
  shows "\<exists>e. entries' = entries @ [e] \<and> extension e = []"
proof -
  have s: "suffix name = []"
    using assms(3)
  proof
    assume "\<exists>t. name = CHR ''.'' # t \<and> CHR ''.'' \<notin> set t"
    then show ?thesis using suffix_leading_dot by blast
  next
    assume "\<exists>t. name = t @ ''.'' \<and> CHR ''.'' \<notin> set t"
    then have "CHR ''.'' \<notin> set (butlast name)" by auto
    then show ?thesis by (rule suffix_trailing_dot)
  qed
  obtain n where n: "parse_file_size size_str = Inr n"
    using assms(2) by (auto simp: process_line_match [OF assms(1)] split: sum.splits)
  have "entries' = entries @ [\<lparr>path = join ''/'' (take (indent_level line) current_path @ [name]),
                                size_bytes = n, extension = lower (suffix name)\<rparr>]"
    using assms(2) by (auto simp: process_line_match [OF assms(1)] n)
  then show ?thesis by (simp add: s lower_Nil)
qed

theorem dotfile_extension_empty_witness:
  "line_match (strip ''[1] .gitignore'') = Some (''1'', ''.gitignore'')
   \<and> process_line ([], []) ''[1] .gitignore''
       = Inr ([''.gitignore''], [\<lparr>path = ''.gitignore'', size_bytes = 1, extension = []\<rparr>])
   \<and> line_match (strip ''[1] file.'') = Some (''1'', ''file.'')
   \<and> process_line ([], []) ''[1] file.''
       = Inr ([''file.''], [\<lparr>path = ''file.'', size_bytes = 1, extension = []\<rparr>])
   \<and> (\<exists>e. [\<lparr>path = ''.gitignore'', size_bytes = 1, extension = []\<rparr>] = [] @ [e]
            \<and> extension e = [])
   \<and> (\<exists>e. [\<lparr>path = ''file.'', size_bytes = 1, extension = []\<rparr>] = [] @ [e]
            \<and> extension e = [])"
proof -
  have a1: "line_match (strip ''[1] .gitignore'') = Some (''1'', ''.gitignore'')"
    by code_simp
  have a2: "process_line ([], []) ''[1] .gitignore''
       = Inr ([''.gitignore''], [\<lparr>path = ''.gitignore'', size_bytes = 1, extension = []\<rparr>])"
    by code_simp
  have a3: "(\<exists>t. ''.gitignore'' = CHR ''.'' # t \<and> CHR ''.'' \<notin> set t)
         \<or> (\<exists>t. ''.gitignore'' = t @ ''.'' \<and> CHR ''.'' \<notin> set t)"
    by simp
  have b1: "line_match (strip ''[1] file.'') = Some (''1'', ''file.'')"
    by code_simp
  have b2: "process_line ([], []) ''[1] file.''
       = Inr ([''file.''], [\<lparr>path = ''file.'', size_bytes = 1, extension = []\<rparr>])"
    by code_simp
  have "''file.'' = ''file'' @ ''.'' \<and> CHR ''.'' \<notin> set ''file''"
    by simp
  then have b3: "(\<exists>t. ''file.'' = CHR ''.'' # t \<and> CHR ''.'' \<notin> set t)
         \<or> (\<exists>t. ''file.'' = t @ ''.'' \<and> CHR ''.'' \<notin> set t)"
    by blast
  show ?thesis
    using a1 a2 b1 b2 dotfile_extension_empty [OF a1 a2 a3] dotfile_extension_empty [OF b1 b2 b3]
    by simp
qed

section \<open>Size tokens\<close>

subsection \<open>What the size pattern matches\<close>

lemma greedy_star_longest:
  assumes "\<And>a c cs. P c \<Longrightarrow> k a (c # cs) = None"
  shows "greedy_star P k acc s = k (acc @ takeWhile P s) (dropWhile P s)"
proof (induction s arbitrary: acc)
  case Nil
  show ?case by simp
next
  case (Cons c cs)
  show ?case
  proof (cases "P c")
    case True
    then show ?thesis
      using assms [OF True, of acc cs] by (simp add: Cons.IH split: option.splits)
  next
    case False
    then show ?thesis by simp
  qed
qed

lemma size_tail_unit_suffix:
  "optional is_unit (\<lambda>unit.
       optional (\<lambda>c. c = CHR ''B'') (\<lambda>_ rest. if at_end rest then Some (v, unit) else None)) r
   = map_option (Pair v) (unit_suffix r)"
proof (cases r)
  case Nil
  then show ?thesis by (simp add: unit_suffix_def optional_def)
next
  case r1: (Cons a r')
  show ?thesis
  proof (cases r')
    case Nil
    then show ?thesis using r1 by (simp add: unit_suffix_def optional_def at_end_def)
  next
    case (Cons b r'')
    then show ?thesis using r1 by (simp add: unit_suffix_def optional_def at_end_def)
  qed
qed

lemma size_tail_fun:
  "(\<lambda>v. optional is_unit (\<lambda>unit.
       optional (\<lambda>c. c = CHR ''B'') (\<lambda>_ rest. if at_end rest then Some (v, unit) else None)))
   = (\<lambda>v r. map_option (Pair v) (unit_suffix r))"
  by (intro ext) (rule size_tail_unit_suffix)

lemma unit_suffix_digit: "digit_or_dot c \<Longrightarrow> unit_suffix (c # cs) = None"
  by (auto simp: unit_suffix_def optional_def digit_or_dot_def is_digit_def is_unit_def at_end_def)

lemma size_match_eq:
  "size_match t =
     (if takeWhile digit_or_dot t = [] then None
      else map_option (Pair (takeWhile digit_or_dot t)) (unit_suffix (dropWhile digit_or_dot t)))"
proof (cases t)
  case Nil
  then show ?thesis by (simp add: size_match_def greedy_plus_def)
next
  case (Cons c cs)
  have "greedy_star digit_or_dot (\<lambda>v r. map_option (Pair v) (unit_suffix r)) [c] cs
        = map_option (Pair ([c] @ takeWhile digit_or_dot cs)) (unit_suffix (dropWhile digit_or_dot cs))"
    by (rule greedy_star_longest) (simp add: unit_suffix_digit)
  then show ?thesis
    using Cons by (simp add: size_match_def greedy_plus_def size_tail_fun)
qed

lemma size_match_value:
  "size_match t = Some (v, u) \<Longrightarrow> v = takeWhile digit_or_dot t \<and> v \<noteq> []"
  by (auto simp: size_match_eq split: if_splits)

lemma unit_suffix_pattern:
  assumes "r = [] \<or> last r \<noteq> LF"
  shows "unit_suffix r \<noteq> None \<longleftrightarrow>
         r \<in> set [[], ''K'', ''M'', ''G'', ''T'', ''B'', ''KB'', ''MB'', ''GB'', ''TB'']"
proof (cases r)
  case Nil
  then show ?thesis by (simp add: unit_suffix_def optional_def at_end_def)
next
  case r1: (Cons a r')
  show ?thesis
  proof (cases r')
    case Nil
    then show ?thesis
      using assms r1
      by (auto simp: unit_suffix_def optional_def at_end_def is_unit_def)
  next
    case r2: (Cons b r'')
    show ?thesis
    proof (cases r'')
      case Nil
      then show ?thesis
        using assms r1 r2
        by (auto simp: unit_suffix_def optional_def at_end_def is_unit_def)
    next
      case r3: (Cons c r''')
      have "unit_suffix r = None"
      proof (cases r''')
        case Nil
        then show ?thesis
          using assms r1 r2 r3
          by (auto simp: unit_suffix_def optional_def at_end_def is_unit_def)
      next
        case (Cons d r4)
        then show ?thesis
          using r1 r2 r3
          by (auto simp: unit_suffix_def optional_def at_end_def is_unit_def)
      qed
      then show ?thesis using r1 r2 r3 by simp
    qed
  qed
qed

lemma strip_last: "strip s = [] \<or> \<not> is_space (last (strip s))"
proof -
  let ?d = "dropWhile is_space (rev (lstrip s))"
  have "?d = [] \<or> \<not> is_space (hd ?d)"
    using hd_dropWhile [of is_space "rev (lstrip s)"] by blast
  then show ?thesis
    by (auto simp: strip_def rstrip_def last_rev)
qed

lemma size_match_pattern: "size_match (strip s) \<noteq> None \<longleftrightarrow> size_pattern (strip s)"
proof -
  let ?t = "strip s"
  let ?r = "dropWhile digit_or_dot ?t"
  have "?r = [] \<or> last ?r \<noteq> LF"
  proof (cases "?r = []")
    case True
    then show ?thesis by simp
  next
    case False
    have "?t = takeWhile digit_or_dot ?t @ ?r" by simp
    then have "last ?t = last ?r"
      using False by (metis last_appendR)
    moreover have "?t \<noteq> []" using False by auto
    ultimately have "\<not> is_space (last ?r)"
      using strip_last [of s] by simp
    then show ?thesis by (auto simp: is_space_def)
  qed
  from unit_suffix_pattern [OF this]
  show ?thesis
    by (simp add: size_match_eq size_pattern_def)
qed

lemma digit_or_dot_not_space: "digit_or_dot c \<Longrightarrow> \<not> is_space c"
  by (auto simp: digit_or_dot_def is_digit_def is_space_def)

lemma strip_id:
  assumes "s \<noteq> []" "\<not> is_space (hd s)" "\<not> is_space (last s)"
  shows "strip s = s"
proof -
  have l: "lstrip s = s"
    using assms(1,2) by (cases s) (simp_all add: lstrip_def)
  have "dropWhile is_space (rev s) = rev s"
    using assms(1,3) by (cases "rev s") (simp_all add: last_rev [symmetric] hd_rev)
  then show ?thesis by (simp add: strip_def rstrip_def l)
qed

lemma takeWhile_run:
  assumes "list_all P v" "sfx = [] \<or> \<not> P (hd sfx)"
  shows "takeWhile P (v @ sfx) = v \<and> dropWhile P (v @ sfx) = sfx"
proof -
  have a: "\<And>x. x \<in> set v \<Longrightarrow> P x" using assms(1) by (simp add: list_all_iff)
  have "takeWhile P sfx = [] \<and> dropWhile P sfx = sfx"
    using assms(2) by (cases sfx) auto
  then show ?thesis
    using a by (simp add: takeWhile_append2 dropWhile_append2)
qed

lemma parse_file_size_suffix:
  assumes "v \<noteq> []" "list_all digit_or_dot v" "float_of_str v = Inr x"
    and "unit_suffix sfx = Some u"
    and "sfx = [] \<or> (\<not> digit_or_dot (hd sfx) \<and> \<not> is_space (last sfx))"
  shows "parse_file_size (v @ sfx) =
           int_of_float
             (case u of
                None \<Rightarrow> x
              | Some c \<Rightarrow>
                  float_mul x (float_of_int (case map_of SIZE_MULTIPLIERS c of Some k \<Rightarrow> k | None \<Rightarrow> 1)))"
proof -
  have hd: "\<not> is_space (hd (v @ sfx))"
    using assms(1,2) by (cases v) (simp_all add: digit_or_dot_not_space)
  have "\<not> is_space (last v)"
    using assms(1,2) by (cases v rule: rev_cases) (simp_all add: digit_or_dot_not_space)
  then have last: "\<not> is_space (last (v @ sfx))"
    using assms(5) by (cases "sfx = []") simp_all
  have s: "strip (v @ sfx) = v @ sfx"
    using assms(1) hd last by (intro strip_id) simp_all
  have "sfx = [] \<or> \<not> digit_or_dot (hd sfx)" using assms(5) by blast
  from takeWhile_run [OF assms(2) this]
  have "size_match (v @ sfx) = Some (v, u)"
    using assms(1,4) by (simp add: size_match_eq)
  then show ?thesis
    by (simp add: parse_file_size_def s assms(3))
qed

lemma unit_suffix_values:
  "unit_suffix [] = Some None" "unit_suffix ''B'' = Some None"
  "unit_suffix ''K'' = Some (Some (CHR ''K''))" "unit_suffix ''KB'' = Some (Some (CHR ''K''))"
  "unit_suffix ''M'' = Some (Some (CHR ''M''))" "unit_suffix ''MB'' = Some (Some (CHR ''M''))"
  "unit_suffix ''G'' = Some (Some (CHR ''G''))" "unit_suffix ''GB'' = Some (Some (CHR ''G''))"
  "unit_suffix ''T'' = Some (Some (CHR ''T''))" "unit_suffix ''TB'' = Some (Some (CHR ''T''))"
  by (simp_all add: unit_suffix_def optional_def is_unit_def at_end_def)

lemma parse_file_size_units:
  assumes "v \<noteq> []" and "list_all digit_or_dot v" and "float_of_str v = Inr x"
  shows "parse_file_size v = int_of_float x
       \<and> parse_file_size (v @ ''B'') = int_of_float x
       \<and> parse_file_size (v @ ''K'') = int_of_float (float_mul x (float_of_int (1024 ^ 1)))
       \<and> parse_file_size (v @ ''KB'') = int_of_float (float_mul x (float_of_int (1024 ^ 1)))
       \<and> parse_file_size (v @ ''M'') = int_of_float (float_mul x (float_of_int (1024 ^ 2)))
       \<and> parse_file_size (v @ ''MB'') = int_of_float (float_mul x (float_of_int (1024 ^ 2)))
       \<and> parse_file_size (v @ ''G'') = int_of_float (float_mul x (float_of_int (1024 ^ 3)))
       \<and> parse_file_size (v @ ''GB'') = int_of_float (float_mul x (float_of_int (1024 ^ 3)))
       \<and> parse_file_size (v @ ''T'') = int_of_float (float_mul x (float_of_int (1024 ^ 4)))
       \<and> parse_file_size (v @ ''TB'') = int_of_float (float_mul x (float_of_int (1024 ^ 4)))"
proof -
  note p = parse_file_size_suffix [OF assms]
  have "parse_file_size (v @ []) = int_of_float x"
    by (subst p [OF unit_suffix_values(1)]) simp_all
  then have 0: "parse_file_size v = int_of_float x" by simp
  have 1: "parse_file_size (v @ ''B'') = int_of_float x"
    by (subst p [OF unit_suffix_values(2)]) (simp_all add: digit_or_dot_def is_digit_def is_space_def)
  have 2: "parse_file_size (v @ ''K'') = int_of_float (float_mul x (float_of_int (1024 ^ 1)))"
    by (subst p [OF unit_suffix_values(3)]) (simp_all add: SIZE_MULTIPLIERS_def digit_or_dot_def is_digit_def is_space_def)
  have 3: "parse_file_size (v @ ''KB'') = int_of_float (float_mul x (float_of_int (1024 ^ 1)))"
    by (subst p [OF unit_suffix_values(4)]) (simp_all add: SIZE_MULTIPLIERS_def digit_or_dot_def is_digit_def is_space_def)
  have 4: "parse_file_size (v @ ''M'') = int_of_float (float_mul x (float_of_int (1024 ^ 2)))"
    by (subst p [OF unit_suffix_values(5)]) (simp_all add: SIZE_MULTIPLIERS_def digit_or_dot_def is_digit_def is_space_def)
  have 5: "parse_file_size (v @ ''MB'') = int_of_float (float_mul x (float_of_int (1024 ^ 2)))"
    by (subst p [OF unit_suffix_values(6)]) (simp_all add: SIZE_MULTIPLIERS_def digit_or_dot_def is_digit_def is_space_def)
  have 6: "parse_file_size (v @ ''G'') = int_of_float (float_mul x (float_of_int (1024 ^ 3)))"
    by (subst p [OF unit_suffix_values(7)]) (simp_all add: SIZE_MULTIPLIERS_def digit_or_dot_def is_digit_def is_space_def)
  have 7: "parse_file_size (v @ ''GB'') = int_of_float (float_mul x (float_of_int (1024 ^ 3)))"
    by (subst p [OF unit_suffix_values(8)]) (simp_all add: SIZE_MULTIPLIERS_def digit_or_dot_def is_digit_def is_space_def)
  have 8: "parse_file_size (v @ ''T'') = int_of_float (float_mul x (float_of_int (1024 ^ 4)))"
    by (subst p [OF unit_suffix_values(9)]) (simp_all add: SIZE_MULTIPLIERS_def digit_or_dot_def is_digit_def is_space_def)
  have 9: "parse_file_size (v @ ''TB'') = int_of_float (float_mul x (float_of_int (1024 ^ 4)))"
    by (subst p [OF unit_suffix_values(10)]) (simp_all add: SIZE_MULTIPLIERS_def digit_or_dot_def is_digit_def is_space_def)
  from 0 1 2 3 4 5 6 7 8 9 show ?thesis by blast
qed

subsection \<open>The floats of the model are the doubles\<close>

text \<open>
  \<open>ilog2\<close> is the binary logarithm rounded down, and \<open>round_to_double\<close> returns a float
  with a significand of at most 53 bits and an exponent of at least \<open>-1074\<close> that lies
  within half a unit in the last place of the exact value. On a value that is already such
  a float it returns that value, or \<open>inf\<close> from \<open>2 ^ 1024\<close> on: the product of a float
  and a power of two is exact.
\<close>

lemma bit_length_bounds:
  "0 < n \<Longrightarrow> 2 ^ (bit_length n - 1) \<le> n \<and> n < 2 ^ bit_length n"
proof (induction n rule: bit_length.induct)
  case (1 n)
  have bl: "bit_length n = Suc (bit_length (n div 2))"
    using "1.prems" by (simp add: bit_length.simps [of n])
  show ?case
  proof (cases "n div 2 = 0")
    case True
    then have n1: "n = 1" using "1.prems" by presburger
    have b0: "bit_length (n div 2) = 0"
      using True by (simp add: bit_length.simps [of 0])
    show ?thesis unfolding bl b0 using n1 by simp
  next
    case False
    then have pos: "0 < n div 2" using "1.prems" by presburger
    let ?b = "bit_length (n div 2)"
    have ih: "2 ^ (?b - 1) \<le> n div 2" "n div 2 < 2 ^ ?b"
      using "1.IH" "1.prems" pos by auto
    have b: "?b \<noteq> 0"
    proof
      assume "?b = 0"
      then show False using ih(2) pos by simp
    qed
    then have "(2::int) ^ ?b = 2 * 2 ^ (?b - 1)"
      by (cases ?b) simp_all
    then have lo: "(2::int) ^ ?b \<le> n"
      using ih(1) by presburger
    have "n < 2 * (n div 2) + 2" by presburger
    then have hi: "n < 2 * 2 ^ ?b"
      using ih(2) by linarith
    show ?thesis using lo hi by (simp add: bl)
  qed
qed

lemma ilog2_le:
  assumes "0 < p" "0 < q" "p < q * 2 ^ K"
  shows "ilog2 p q \<le> int K"
proof -
  let ?t = "int (bit_length p) - int (bit_length q)"
  have "ilog2 p q \<le> ?t"
    by (simp add: ilog2_def Let_def split: prod.splits)
  moreover have "?t \<le> int K"
  proof -
    have "(2::int) ^ (bit_length p - 1) \<le> p"
      using bit_length_bounds [OF assms(1)] by simp
    also have "p < q * 2 ^ K" by fact
    also have "q * 2 ^ K \<le> 2 ^ bit_length q * 2 ^ K"
      using bit_length_bounds [OF assms(2)] by (simp add: mult_right_mono)
    finally have "(2::int) ^ (bit_length p - 1) < 2 ^ (bit_length q + K)"
      by (simp add: power_add)
    then have "bit_length p - 1 < bit_length q + K"
      by (rule power_less_imp_less_exp [rotated]) simp
    then show ?thesis by linarith
  qed
  ultimately show ?thesis by linarith
qed

lemma round_half_even_le:
  assumes "0 \<le> a" "0 < b" "a < b * J"
  shows "0 \<le> round_half_even a b \<and> round_half_even a b \<le> J"
proof -
  have m0: "0 \<le> a div b"
    using assms(1,2) by (simp add: pos_imp_zdiv_nonneg_iff)
  have "b * (a div b) + a mod b = a" by (rule mult_div_mod_eq)
  moreover have "0 \<le> a mod b" using assms(2) by (rule pos_mod_sign)
  ultimately have "b * (a div b) < b * J" using assms(3) by linarith
  then have "a div b < J"
    using assms(2) by (simp add: mult_less_cancel_left_pos)
  then show ?thesis
    using m0 by (auto simp: round_half_even_def Let_def)
qed

lemma scale_below:
  assumes "0 \<le> p" "0 < q" "p < q * 2 ^ K" "e \<le> int K" "scale p q e = (a, b)"
  shows "0 \<le> a \<and> 0 < b \<and> a < b * 2 ^ nat (int K - e)"
proof (cases "0 \<le> e")
  case True
  then have ab: "a = p" "b = q * 2 ^ nat e"
    using assms(5) by (simp_all add: scale_def)
  have "K = nat e + nat (int K - e)"
    using True assms(4) by linarith
  then have "(2::int) ^ K = 2 ^ nat e * 2 ^ nat (int K - e)"
    by (metis power_add)
  then show ?thesis
    using assms(1,2,3) by (simp add: ab mult.assoc)
next
  case False
  then have ab: "a = p * 2 ^ nat (- e)" "b = q"
    using assms(5) by (simp_all add: scale_def)
  have "nat (int K - e) = K + nat (- e)"
    using False by linarith
  then have "(2::int) ^ nat (int K - e) = 2 ^ K * 2 ^ nat (- e)"
    by (simp add: power_add)
  then show ?thesis
    using assms(1,2,3) by (simp add: ab mult.assoc [symmetric])
qed

lemma round_to_double_below:
  assumes "0 \<le> p" "0 < q" "p < q * 2 ^ K" "K \<le> 1023"
  shows "float_below K (round_to_double p q)"
proof (cases "p = 0")
  case True
  then show ?thesis by (simp add: round_to_double_def float_below_def)
next
  case False
  then have p: "0 < p" using assms(1) by simp
  define e where "e = max (ilog2 p q - 52) (- 1074)"
  obtain a b where ab: "scale p q e = (a, b)" by (cases "scale p q e")
  define m where "m = round_half_even a b"
  have e: "e \<le> int K"
    using ilog2_le [OF p assms(2,3)] by (simp add: e_def)
  from scale_below [OF assms(1,2,3) e ab]
  have "0 \<le> a" "0 < b" "a < b * 2 ^ nat (int K - e)" by simp_all
  from round_half_even_le [OF this]
  have m: "0 \<le> m" "m \<le> 2 ^ nat (int K - e)" by (simp_all add: m_def)
  have no: "\<not> (971 \<le> e \<and> 2 ^ 53 \<le> m * 2 ^ nat (e - 971))"
  proof
    assume h: "971 \<le> e \<and> 2 ^ 53 \<le> m * 2 ^ nat (e - 971)"
    have "m * 2 ^ nat (e - 971) \<le> 2 ^ nat (int K - e) * 2 ^ nat (e - 971)"
      using m(2) by (simp add: mult_right_mono)
    also have "\<dots> = 2 ^ (nat (int K - e) + nat (e - 971))"
      by (simp add: power_add)
    also have "\<dots> \<le> (2::int) ^ 52"
      by (rule power_increasing) (use h e assms(4) in auto)
    finally show False using h by simp
  qed
  have "round_to_double p q = Finite m e"
    using False no by (simp add: round_to_double_def e_def [symmetric] ab m_def [symmetric])
  then show ?thesis using m e by (simp add: float_below_def)
qed

lemma float_mul_below:
  assumes "float_below K1 x" "float_below K2 y" "K1 + K2 + 1 \<le> 1023"
  shows "float_below (K1 + K2 + 1) (float_mul x y)"
proof -
  obtain m1 e1 where x: "x = Finite m1 e1" and x1: "0 \<le> m1" "e1 \<le> int K1" "m1 \<le> 2 ^ nat (int K1 - e1)"
    using assms(1) by (cases x) (auto simp: float_below_def)
  obtain m2 e2 where y: "y = Finite m2 e2" and y1: "0 \<le> m2" "e2 \<le> int K2" "m2 \<le> 2 ^ nat (int K2 - e2)"
    using assms(2) by (cases y) (auto simp: float_below_def)
  obtain a b where ab: "scale (m1 * m2) 1 (- (e1 + e2)) = (a, b)"
    by (cases "scale (m1 * m2) 1 (- (e1 + e2))")
  have prod: "m1 * m2 \<le> 2 ^ (nat (int K1 - e1) + nat (int K2 - e2))"
    using mult_mono [OF x1(3) y1(3)] x1(1) y1(1) by (simp add: power_add)
  have bound: "0 \<le> a \<and> 0 < b \<and> a < b * 2 ^ (K1 + K2 + 1)"
  proof (cases "e1 + e2 \<le> 0")
    case True
    then have v: "a = m1 * m2" "b = 2 ^ nat (- (e1 + e2))"
      using ab by (simp_all add: scale_def)
    have "nat (int K1 - e1) + nat (int K2 - e2) < nat (- (e1 + e2)) + (K1 + K2 + 1)"
      using True x1(2) y1(2) by linarith
    then have "(2::int) ^ (nat (int K1 - e1) + nat (int K2 - e2)) < 2 ^ (nat (- (e1 + e2)) + (K1 + K2 + 1))"
      by (rule power_strict_increasing) simp
    then have "m1 * m2 < 2 ^ nat (- (e1 + e2)) * 2 ^ (K1 + K2 + 1)"
      using prod by (simp add: power_add)
    then show ?thesis using x1(1) y1(1) by (simp add: v)
  next
    case False
    then have v: "a = m1 * m2 * 2 ^ nat (e1 + e2)" "b = 1"
      using ab by (auto simp: scale_def add.commute)
    have "a \<le> 2 ^ (nat (int K1 - e1) + nat (int K2 - e2)) * 2 ^ nat (e1 + e2)"
      using prod by (simp add: v mult_right_mono)
    also have "\<dots> = 2 ^ (nat (int K1 - e1) + nat (int K2 - e2) + nat (e1 + e2))"
      by (simp add: power_add)
    also have "\<dots> < (2::int) ^ (K1 + K2 + 1)"
      by (rule power_strict_increasing) (use False x1(2) y1(2) in auto)
    finally show ?thesis using x1(1) y1(1) by (simp add: v)
  qed
  then have "float_below (K1 + K2 + 1) (round_to_double a b)"
    using assms(3) by (intro round_to_double_below) simp_all
  moreover have "float_mul x y = round_to_double a b"
    unfolding x y float_mul.simps ab by simp
  ultimately show ?thesis by simp
qed

lemma int_of_float_below:
  "float_below K x \<Longrightarrow> \<exists>n. int_of_float x = Inr n \<and> 0 \<le> n"
  by (cases x) (auto simp: float_below_def int_of_float_def pos_imp_zdiv_nonneg_iff)

lemma digit_range: "is_digit c \<Longrightarrow> 0 \<le> (of_char c :: int) - 48 \<and> (of_char c :: int) - 48 \<le> 9"
  by (auto simp: is_digit_def)

lemma digits_value_snoc: "digits_value (ds @ [c]) = 10 * digits_value ds + (of_char c - 48)"
  by (simp add: digits_value_def)

lemma digits_value_bound:
  "list_all is_digit ds \<Longrightarrow> 0 \<le> digits_value ds \<and> digits_value ds < 10 ^ length ds"
proof (induction ds rule: rev_induct)
  case Nil
  show ?case by (simp add: digits_value_def)
next
  case (snoc c ds)
  then have ih: "0 \<le> digits_value ds" "digits_value ds < 10 ^ length ds" and c: "is_digit c"
    by simp_all
  from digit_range [OF c] ih show ?case
    by (simp add: digits_value_snoc)
qed

lemma ten_pow_280: "(10::int) ^ 280 \<le> 2 ^ 931"
  by simp

lemma decimal_below:
  assumes "list_all is_digit ds" "length ds \<le> 280" "1 \<le> q"
  shows "float_below 931 (round_to_double (digits_value ds) q)"
proof (rule round_to_double_below)
  show "0 \<le> digits_value ds" using digits_value_bound [OF assms(1)] by simp
  show "0 < q" using assms(3) by simp
  have "digits_value ds < 10 ^ length ds"
    using digits_value_bound [OF assms(1)] by simp
  also have "\<dots> \<le> (10::int) ^ 280"
    using assms(2) by (intro power_increasing) simp_all
  also have "\<dots> \<le> 2 ^ 931" by (rule ten_pow_280)
  also have "\<dots> \<le> q * 2 ^ 931" using assms(3) by simp
  finally show "digits_value ds < q * 2 ^ 931" .
  show "(931::nat) \<le> 1023" by simp
qed

lemma takeWhile_all: "list_all P (takeWhile P xs)"
  by (induction xs) simp_all

lemma dropWhile_head: "dropWhile P xs = c # cs \<Longrightarrow> \<not> P c"
  by (induction xs) (auto split: if_splits)

lemma digits_no_dot: "list_all is_digit xs \<Longrightarrow> filter (\<lambda>c. c = CHR ''.'') xs = []"
  by (induction xs) (auto simp: is_digit_def)

lemma no_dot_digits:
  "list_all digit_or_dot xs \<Longrightarrow> filter (\<lambda>c. c = CHR ''.'') xs = [] \<Longrightarrow> list_all is_digit xs"
  by (induction xs) (auto simp: digit_or_dot_def split: if_splits)

lemma scale_value:
  assumes "0 < q" "scale p q e = (a, b)"
  shows "0 < b \<and> real_of_int a / real_of_int b = (real_of_int p / real_of_int q) * 2 powi (- e)"
proof (cases "0 \<le> e")
  case True
  then have ab: "a = p" "b = q * 2 ^ nat e"
    using assms(2) by (simp_all add: scale_def)
  have "(2::real) powi (- e) = 1 / 2 ^ nat e"
    using True by (simp add: power_int_minus_divide power_int_nonneg_exp)
  then show ?thesis using assms(1) by (simp add: ab)
next
  case False
  then have ab: "a = p * 2 ^ nat (- e)" "b = q"
    using assms(2) by (simp_all add: scale_def)
  have "(2::real) powi (- e) = 2 ^ nat (- e)"
    using False by (simp add: power_int_nonneg_exp)
  then show ?thesis using assms(1) by (simp add: ab)
qed

lemma bit_length_real:
  assumes "0 < n"
  shows "2 powi (int (bit_length n) - 1) \<le> real_of_int n \<and> real_of_int n < 2 powi int (bit_length n)"
proof -
  have b: "2 ^ (bit_length n - 1) \<le> n" "n < 2 ^ bit_length n"
    using bit_length_bounds [OF assms] by simp_all
  have pos: "bit_length n \<noteq> 0"
  proof
    assume "bit_length n = 0"
    then show False using b(2) assms by simp
  qed
  then have "int (bit_length n) - 1 = int (bit_length n - 1)" by simp
  then have "(2::real) powi (int (bit_length n) - 1) = 2 ^ (bit_length n - 1)"
    by (simp only: power_int_of_nat)
  moreover have "real_of_int (2 ^ (bit_length n - 1)) \<le> real_of_int n"
    using b(1) by (simp only: of_int_le_iff)
  moreover have "real_of_int n < real_of_int (2 ^ bit_length n)"
    using b(2) by (simp only: of_int_less_iff)
  ultimately show ?thesis by simp
qed

lemma ilog2_bounds:
  assumes "0 < p" "0 < q"
  shows "2 powi (ilog2 p q) \<le> real_of_int p / real_of_int q
       \<and> real_of_int p / real_of_int q < 2 powi (ilog2 p q + 1)"
proof -
  define t where "t = int (bit_length p) - int (bit_length q)"
  define x where "x = real_of_int p / real_of_int q"
  obtain a b where ab: "scale p q t = (a, b)" by (cases "scale p q t")
  have il: "ilog2 p q = (if b \<le> a then t else t - 1)"
    by (simp add: ilog2_def Let_def t_def [symmetric] ab)
  have sv: "0 < b" "real_of_int a / real_of_int b = x * 2 powi (- t)"
    using scale_value [OF assms(2) ab] by (simp_all add: x_def)
  have bp: "2 powi (int (bit_length p) - 1) \<le> real_of_int p" "real_of_int p < 2 powi int (bit_length p)"
    using bit_length_real [OF assms(1)] by simp_all
  have bq: "2 powi (int (bit_length q) - 1) \<le> real_of_int q" "real_of_int q < 2 powi int (bit_length q)"
    using bit_length_real [OF assms(2)] by simp_all
  have qpos: "0 < real_of_int q" using assms(2) by simp
  have ppos: "0 < real_of_int p" using assms(1) by simp
  have up: "x < 2 powi (t + 1)"
  proof -
    have "real_of_int p < 2 powi int (bit_length p)" by (rule bp(2))
    also have "\<dots> = 2 powi (t + 1) * 2 powi (int (bit_length q) - 1)"
      by (subst power_int_add [symmetric]) (simp_all add: t_def)
    also have "\<dots> \<le> 2 powi (t + 1) * real_of_int q"
      using bq(1) by (simp add: mult_left_mono)
    finally show ?thesis using qpos by (simp add: x_def pos_divide_less_eq)
  qed
  have lo: "2 powi (t - 1) < x"
  proof -
    have "2 powi (t - 1) * real_of_int q < 2 powi (t - 1) * 2 powi int (bit_length q)"
      using bq(2) by (simp add: mult_strict_left_mono)
    also have "\<dots> = 2 powi (int (bit_length p) - 1)"
      by (subst power_int_add [symmetric]) (simp_all add: t_def)
    also have "\<dots> \<le> real_of_int p" by (rule bp(1))
    finally show ?thesis using qpos by (simp add: x_def pos_less_divide_eq)
  qed
  have test: "b \<le> a \<longleftrightarrow> 2 powi t \<le> x"
  proof -
    have "b \<le> a \<longleftrightarrow> 1 \<le> real_of_int a / real_of_int b"
      using sv(1) by (simp add: pos_le_divide_eq)
    also have "\<dots> \<longleftrightarrow> 1 \<le> x * 2 powi (- t)" by (simp only: sv(2))
    also have "\<dots> \<longleftrightarrow> 2 powi t \<le> x"
      by (simp add: power_int_minus field_simps)
    finally show ?thesis .
  qed
  show ?thesis
  proof (cases "b \<le> a")
    case True
    then show ?thesis using test up by (simp add: il x_def)
  next
    case False
    then have "x < 2 powi t" using test by simp
    then show ?thesis using False lo by (simp add: il x_def)
  qed
qed

lemma round_half_even_near:
  assumes "0 < b"
  shows "\<bar>real_of_int (round_half_even a b) - real_of_int a / real_of_int b\<bar> \<le> 1 / 2"
proof -
  define m0 where "m0 = a div b"
  define r where "r = a mod b"
  have a: "a = b * m0 + r" by (simp add: m0_def r_def)
  have r: "0 \<le> r" "r < b" using assms by (simp_all add: r_def)
  have bpos: "0 < real_of_int b" using assms by simp
  have q: "real_of_int a / real_of_int b = real_of_int m0 + real_of_int r / real_of_int b"
    using bpos by (simp add: a field_simps)
  show ?thesis
  proof (cases "b < 2 * r \<or> (2 * r = b \<and> odd m0)")
    case True
    then have m: "round_half_even a b = m0 + 1"
      by (simp add: round_half_even_def Let_def m0_def r_def)
    have "b \<le> 2 * r" using True by auto
    then have "real_of_int b \<le> 2 * real_of_int r"
      by (metis of_int_le_iff of_int_mult of_int_numeral)
    then have "1 / 2 \<le> real_of_int r / real_of_int b"
      using bpos by (simp add: field_simps)
    moreover have "real_of_int r / real_of_int b < 1"
      using r(2) bpos by simp
    ultimately show ?thesis by (simp add: m q)
  next
    case False
    then have m: "round_half_even a b = m0"
      by (simp add: round_half_even_def Let_def m0_def r_def)
    have "2 * r \<le> b" using False by auto
    then have "2 * real_of_int r \<le> real_of_int b"
      by (metis of_int_le_iff of_int_mult of_int_numeral)
    then have "real_of_int r / real_of_int b \<le> 1 / 2"
      using bpos by (simp add: field_simps)
    moreover have "0 \<le> real_of_int r / real_of_int b"
      using r(1) bpos by simp
    ultimately show ?thesis by (simp add: m q)
  qed
qed

lemma round_half_even_exact:
  assumes "0 < b" "a = z * b"
  shows "round_half_even a b = z"
  using assms by (simp add: round_half_even_def Let_def)

lemma pow2_less_exp:
  assumes "(2::real) powi k < 2 powi j"
  shows "k < j"
proof (rule ccontr)
  assume "\<not> k < j"
  then have "j \<le> k" by simp
  then have "(2::real) powi j \<le> 2 powi k"
    by (intro power_int_increasing) simp_all
  then show False using assms by simp
qed

lemma int_of_float_floor:
  "int_of_float (Finite m e) = Inr \<lfloor>float_val m e\<rfloor>"
proof (cases "0 \<le> e")
  case True
  then have "float_val m e = real_of_int (m * 2 ^ nat e)"
    by (simp add: float_val_def power_int_nonneg_exp)
  then have "\<lfloor>float_val m e\<rfloor> = m * 2 ^ nat e"
    by (simp only: floor_of_int)
  then show ?thesis using True by (simp add: int_of_float_def)
next
  case False
  then have "(2::real) powi e = 1 / 2 ^ nat (- e)"
    using power_int_minus_divide [of "2::real" "- e"]
    by (simp add: power_int_nonneg_exp)
  then have "float_val m e = real_of_int m / real_of_int (2 ^ nat (- e))"
    by (simp add: float_val_def)
  then have "\<lfloor>float_val m e\<rfloor> = m div 2 ^ nat (- e)"
    by (simp only: floor_divide_of_int_eq)
  then show ?thesis using False by (simp add: int_of_float_def)
qed

lemma round_to_double_nearest:
  assumes "0 < p" "0 < q" "round_to_double p q = Finite m e"
  shows "- 1074 \<le> e \<and> 0 \<le> m \<and> m \<le> 2 ^ 53
       \<and> \<bar>float_val m e - real_of_int p / real_of_int q\<bar> \<le> 2 powi (e - 1)"
proof -
  define x where "x = real_of_int p / real_of_int q"
  define k where "k = ilog2 p q"
  define e' where "e' = max (k - 52) (- 1074)"
  obtain a b where ab: "scale p q e' = (a, b)" by (cases "scale p q e'")
  define m' where "m' = round_half_even a b"
  have unfold: "round_to_double p q =
      (if 971 \<le> e' \<and> 2 ^ 53 \<le> m' * 2 ^ nat (e' - 971) then Infinity else Finite m' e')"
    using assms(1)
    by (simp add: round_to_double_def k_def [symmetric] e'_def [symmetric] ab m'_def [symmetric])
  then have me: "m = m'" "e = e'"
    using assms(3) by (simp_all split: if_splits)
  have xpos: "0 < x" using assms(1,2) by (simp add: x_def)
  have kb: "2 powi k \<le> x" "x < 2 powi (k + 1)"
    using ilog2_bounds [OF assms(1,2)] by (simp_all add: k_def x_def)
  have sv: "0 < b" "real_of_int a / real_of_int b = x * 2 powi (- e')"
    using scale_value [OF assms(2) ab] by (simp_all add: x_def)
  have near: "\<bar>real_of_int m' - x * 2 powi (- e')\<bar> \<le> 1 / 2"
    using round_half_even_near [OF sv(1), of a] by (simp add: m'_def sv(2))
  have e1: "- 1074 \<le> e'" by (simp add: e'_def)
  have "x * 2 powi (- e') < 2 powi (k + 1) * 2 powi (- e')"
    using kb(2) by (simp add: mult_strict_right_mono)
  also have "\<dots> = 2 powi (k + 1 - e')"
    by (subst power_int_add [symmetric]) simp_all
  also have "\<dots> \<le> 2 powi 53"
    by (intro power_int_increasing) (simp_all add: e'_def)
  finally have "x * 2 powi (- e') < 2 ^ 53" by simp
  then have "real_of_int m' < 2 ^ 53 + 1" using near by linarith
  then have "real_of_int m' < real_of_int (2 ^ 53 + 1)" by simp
  then have "m' < 2 ^ 53 + 1" by (simp only: of_int_less_iff)
  then have m_hi: "m' \<le> 2 ^ 53" by simp
  have "0 < x * 2 powi (- e')" using xpos by simp
  then have "- 1 < real_of_int m'" using near by linarith
  then have "real_of_int (- 1) < real_of_int m'" by simp
  then have "- 1 < m'" by (simp only: of_int_less_iff)
  then have m_lo: "0 \<le> m'" by simp
  have "\<bar>float_val m' e' - x\<bar> = \<bar>real_of_int m' - x * 2 powi (- e')\<bar> * 2 powi e'"
  proof -
    have "float_val m' e' - x = (real_of_int m' - x * 2 powi (- e')) * 2 powi e'"
      by (simp add: float_val_def algebra_simps power_int_add [symmetric])
    then show ?thesis by (simp add: abs_mult)
  qed
  also have "\<dots> \<le> (1 / 2) * 2 powi e'"
    using near by (intro mult_right_mono) simp_all
  also have "\<dots> = 2 powi (e' - 1)"
    by (simp add: power_int_diff)
  finally show ?thesis
    using e1 m_lo m_hi by (simp add: me x_def)
qed

lemma round_to_double_exact:
  assumes "0 < M" "M < 2 ^ 53" "- 1074 \<le> E" "0 < a" "0 < b"
    and "real_of_int a / real_of_int b = float_val M E"
  shows "(2 powi 1024 \<le> float_val M E \<longrightarrow> round_to_double a b = Infinity) \<and>
         (float_val M E < 2 powi 1024 \<longrightarrow>
            (\<exists>m e. round_to_double a b = Finite m e \<and> float_val m e = float_val M E))"
proof -
  define x where "x = float_val M E"
  define k where "k = ilog2 a b"
  define e where "e = max (k - 52) (- 1074)"
  obtain a2 b2 where ab: "scale a b e = (a2, b2)" by (cases "scale a b e")
  define Z where "Z = M * 2 ^ nat (E - e)"
  have kb: "2 powi k \<le> x" "x < 2 powi (k + 1)"
    using ilog2_bounds [OF assms(4,5)] by (simp_all add: k_def x_def assms(6))
  have "x < 2 ^ 53 * 2 powi E"
  proof -
    have "real_of_int M < real_of_int (2 ^ 53)" using assms(2) by (simp only: of_int_less_iff)
    then show ?thesis by (simp add: x_def float_val_def)
  qed
  also have "\<dots> = 2 powi (53 + E)"
    by (simp add: power_int_add)
  finally have "2 powi k < (2::real) powi (53 + E)" using kb(1) by simp
  then have "k < 53 + E" by (rule pow2_less_exp)
  then have eE: "e \<le> E" using assms(3) by (simp add: e_def)
  have sv: "0 < b2" "real_of_int a2 / real_of_int b2 = x * 2 powi (- e)"
    using scale_value [OF assms(5) ab] by (simp_all add: x_def assms(6))
  have zval: "real_of_int Z = x * 2 powi (- e)"
  proof -
    have "(2::real) powi (E - e) = 2 ^ nat (E - e)"
      using eE by (simp add: power_int_nonneg_exp)
    then have "real_of_int Z = real_of_int M * 2 powi (E - e)"
      by (simp add: Z_def)
    also have "\<dots> = real_of_int M * (2 powi E * 2 powi (- e))"
      by (subst power_int_add [symmetric]) simp_all
    finally show ?thesis by (simp add: x_def float_val_def)
  qed
  have "real_of_int a2 = real_of_int (Z * b2)"
    using sv zval by (simp add: field_simps)
  then have "a2 = Z * b2" by (simp only: of_int_eq_iff)
  then have rhe: "round_half_even a2 b2 = Z"
    using sv(1) by (intro round_half_even_exact)
  have unfold: "round_to_double a b =
      (if 971 \<le> e \<and> 2 ^ 53 \<le> Z * 2 ^ nat (e - 971) then Infinity else Finite Z e)"
    using assms(4)
    by (simp add: round_to_double_def k_def [symmetric] e_def [symmetric] ab rhe)
  have zx: "float_val Z e = x"
  proof -
    have "float_val Z e = x * (2 powi (- e) * 2 powi e)"
      by (simp add: float_val_def zval)
    also have "\<dots> = x"
      by (subst power_int_add [symmetric]) simp_all
    finally show ?thesis .
  qed
  have ov: "(971 \<le> e \<and> 2 ^ 53 \<le> Z * 2 ^ nat (e - 971)) \<longleftrightarrow> 2 powi 1024 \<le> x"
  proof
    assume h: "971 \<le> e \<and> 2 ^ 53 \<le> Z * 2 ^ nat (e - 971)"
    then have "real_of_int (2 ^ 53) \<le> real_of_int (Z * 2 ^ nat (e - 971))"
      by (simp only: of_int_le_iff)
    moreover have "(2::real) ^ nat (e - 971) = 2 powi (e - 971)"
      using h by (simp add: power_int_nonneg_exp)
    ultimately have "2 ^ 53 \<le> x * (2 powi (- e) * 2 powi (e - 971))"
      by (simp add: zval)
    also have "2 powi (- e) * (2::real) powi (e - 971) = 2 powi (- 971)"
      by (subst power_int_add [symmetric]) simp_all
    finally have "2 ^ 53 * 2 powi 971 \<le> x * (2 powi (- 971) * 2 powi 971)"
      by (simp add: mult_right_mono)
    then show "2 powi 1024 \<le> x"
      by (simp add: power_int_minus power_add [symmetric])
  next
    assume h: "2 powi 1024 \<le> x"
    then have "(2::real) powi 1024 < 2 powi (k + 1)"
      using kb(2) by linarith
    then have "1024 < k + 1" by (rule pow2_less_exp)
    then have e971: "971 \<le> e" by (simp add: e_def)
    have p: "(2::real) ^ nat (e - 971) = 2 powi (e - 971)"
      using e971 by (simp add: power_int_nonneg_exp)
    have "(2::real) ^ 53 = 2 powi 1024 * 2 powi (- 971)"
      by (simp add: power_int_minus_divide)
    also have "\<dots> \<le> x * 2 powi (- 971)"
      using h by (intro mult_right_mono) simp_all
    also have "\<dots> = x * (2 powi (- e) * 2 powi (e - 971))"
      by (subst power_int_add [symmetric]) simp_all
    also have "\<dots> = real_of_int (Z * 2 ^ nat (e - 971))"
      by (simp add: zval p)
    finally have "real_of_int (2 ^ 53) \<le> real_of_int (Z * 2 ^ nat (e - 971))"
      by simp
    then have "2 ^ 53 \<le> Z * 2 ^ nat (e - 971)" by (simp only: of_int_le_iff)
    with e971 show "971 \<le> e \<and> 2 ^ 53 \<le> Z * 2 ^ nat (e - 971)" by simp
  qed
  show ?thesis
    using ov zx unfold by (auto simp: x_def)
qed

lemma scale_zero: "scale 0 q e = (a, b) \<Longrightarrow> a = 0"
  by (auto simp: scale_def split: if_splits)

lemma round_to_double_repr:
  assumes "0 \<le> p" "0 < q" "round_to_double p q = Finite m e"
  shows "0 \<le> m \<and> m \<le> 2 ^ 53 \<and> - 1074 \<le> e
       \<and> \<bar>float_val m e - real_of_int p / real_of_int q\<bar> \<le> 2 powi (e - 1)"
proof (cases "p = 0")
  case True
  then have "m = 0" "e = 0" using assms(3) by (simp_all add: round_to_double_def)
  then show ?thesis using True by (simp add: float_val_def)
next
  case False
  then have "0 < p" using assms(1) by simp
  from round_to_double_nearest [OF this assms(2,3)] show ?thesis by simp
qed

lemma float_mul_power_of_two:
  assumes "0 \<le> m" "m \<le> 2 ^ 53" "- 1074 \<le> e" "0 < m2" "float_val m2 e2 = 2 ^ t"
  shows "int_of_float (float_mul (Finite m e) (Finite m2 e2)) = truncated_product m e (2 ^ t)"
proof -
  define x where "x = float_val m e * 2 ^ t"
  obtain a b where ab: "scale (m * m2) 1 (- (e + e2)) = (a, b)"
    by (cases "scale (m * m2) 1 (- (e + e2))")
  have fm: "float_mul (Finite m e) (Finite m2 e2) = round_to_double a b"
    unfolding float_mul.simps ab by simp
  have sv: "0 < b" "real_of_int a / real_of_int b = real_of_int (m * m2) * 2 powi (e + e2)"
    using scale_value [OF _ ab] by (simp_all add: add.commute)
  have val: "real_of_int a / real_of_int b = x"
  proof -
    have "real_of_int (m * m2) * 2 powi (e + e2) = float_val m e * float_val m2 e2"
      by (simp add: float_val_def power_int_add)
    then show ?thesis by (simp add: sv(2) assms(5) x_def)
  qed
  have tp: "truncated_product m e (2 ^ t) = (if x < 2 powi 1024 then Inr \<lfloor>x\<rfloor> else Inl OverflowError)"
    by (simp add: truncated_product_def x_def)
  show ?thesis
  proof (cases "m = 0")
    case True
    then have "a = 0" using ab scale_zero by simp
    then have "round_to_double a b = Finite 0 0" by (simp add: round_to_double_def)
    moreover have "x = 0" using True by (simp add: x_def float_val_def)
    ultimately show ?thesis
      unfolding fm tp by (simp add: int_of_float_def)
  next
    case False
    then have mpos: "0 < m" using assms(1) by simp
    have xpos: "0 < x" using mpos by (simp add: x_def float_val_def)
    have apos: "0 < a"
    proof (rule ccontr)
      assume "\<not> 0 < a"
      then have "real_of_int a \<le> 0" by simp
      then have "real_of_int a / real_of_int b \<le> 0"
        using sv(1) by (simp add: divide_nonpos_pos)
      then show False using xpos val by simp
    qed
    have "\<exists>M E. 0 < M \<and> M < 2 ^ 53 \<and> - 1074 \<le> E \<and> float_val M E = x"
    proof (cases "m = 2 ^ 53")
      case True
      have "float_val 1 (e + int t + 53) = x"
        by (simp add: float_val_def x_def True power_int_add)
      moreover have "- 1074 \<le> e + int t + 53" using assms(3) by simp
      ultimately show ?thesis
        by (intro exI [of _ 1] exI [of _ "e + int t + 53"]) simp
    next
      case False
      have "float_val m (e + int t) = x"
        by (simp add: float_val_def x_def power_int_add)
      moreover have "- 1074 \<le> e + int t" using assms(3) by simp
      moreover have "m < 2 ^ 53" using False assms(2) by simp
      ultimately show ?thesis
        using mpos by (intro exI [of _ m] exI [of _ "e + int t"]) simp
    qed
    then obtain M E where ME: "0 < M" "M < 2 ^ 53" "- 1074 \<le> E" "float_val M E = x"
      by blast
    have "real_of_int a / real_of_int b = float_val M E" by (simp add: val ME(4))
    from round_to_double_exact [OF ME(1,2,3) apos sv(1) this]
    have ex: "2 powi 1024 \<le> x \<longrightarrow> round_to_double a b = Infinity"
      "x < 2 powi 1024 \<longrightarrow> (\<exists>m' e'. round_to_double a b = Finite m' e' \<and> float_val m' e' = x)"
      by (simp_all add: ME(4))
    show ?thesis
    proof (cases "x < 2 powi 1024")
      case True
      then obtain m' e' where r: "round_to_double a b = Finite m' e'" "float_val m' e' = x"
        using ex(2) by blast
      then show ?thesis
        using True unfolding fm tp by (simp add: int_of_float_floor)
    next
      case False
      then have "round_to_double a b = Infinity" using ex(1) by simp
      then show ?thesis using False unfolding fm tp by (simp add: int_of_float_def)
    qed
  qed
qed

lemma multiplier_floats:
  "float_of_int (2 ^ 10) = Finite (2 ^ 52) (- 42)"
  "float_of_int (2 ^ 20) = Finite (2 ^ 52) (- 32)"
  "float_of_int (2 ^ 30) = Finite (2 ^ 52) (- 22)"
  "float_of_int (2 ^ 40) = Finite (2 ^ 52) (- 12)"
  by code_simp+

lemma multiplier_values:
  "float_val (2 ^ 52) (- 42) = 2 ^ 10" "float_val (2 ^ 52) (- 32) = 2 ^ 20"
  "float_val (2 ^ 52) (- 22) = 2 ^ 30" "float_val (2 ^ 52) (- 12) = 2 ^ 40"
  by (simp_all add: float_val_def power_int_minus_divide)

lemma float_mul_multiplier:
  assumes "0 \<le> m" "m \<le> 2 ^ 53" "- 1074 \<le> e"
  shows "int_of_float (float_mul (Finite m e) (float_of_int (1024 ^ 1))) = truncated_product m e (1024 ^ 1)"
    and "int_of_float (float_mul (Finite m e) (float_of_int (1024 ^ 2))) = truncated_product m e (1024 ^ 2)"
    and "int_of_float (float_mul (Finite m e) (float_of_int (1024 ^ 3))) = truncated_product m e (1024 ^ 3)"
    and "int_of_float (float_mul (Finite m e) (float_of_int (1024 ^ 4))) = truncated_product m e (1024 ^ 4)"
proof -
  have k: "(1024::int) ^ 1 = 2 ^ 10" "(1024::int) ^ 2 = 2 ^ 20" "(1024::int) ^ 3 = 2 ^ 30" "(1024::int) ^ 4 = 2 ^ 40"
    by simp_all
  show "int_of_float (float_mul (Finite m e) (float_of_int (1024 ^ 1))) = truncated_product m e (1024 ^ 1)"
    unfolding k(1) multiplier_floats
    by (rule float_mul_power_of_two [OF assms _ multiplier_values(1)]) simp
  show "int_of_float (float_mul (Finite m e) (float_of_int (1024 ^ 2))) = truncated_product m e (1024 ^ 2)"
    unfolding k(2) multiplier_floats
    by (rule float_mul_power_of_two [OF assms _ multiplier_values(2)]) simp
  show "int_of_float (float_mul (Finite m e) (float_of_int (1024 ^ 3))) = truncated_product m e (1024 ^ 3)"
    unfolding k(3) multiplier_floats
    by (rule float_mul_power_of_two [OF assms _ multiplier_values(3)]) simp
  show "int_of_float (float_mul (Finite m e) (float_of_int (1024 ^ 4))) = truncated_product m e (1024 ^ 4)"
    unfolding k(4) multiplier_floats
    by (rule float_mul_power_of_two [OF assms _ multiplier_values(4)]) simp
qed

lemma filter_digits_run:
  "list_all is_digit ip \<Longrightarrow> filter is_digit ip = ip"
  by (induction ip) simp_all

lemma float_of_str_nearest:
  assumes "float_of_str v = Inr (Finite m e)"
  shows "0 \<le> m \<and> m \<le> 2 ^ 53 \<and> - 1074 \<le> e
       \<and> \<bar>float_val m e - decimal_value v\<bar> \<le> 2 powi (e - 1)"
proof -
  define ip where "ip = takeWhile is_digit v"
  define r where "r = dropWhile is_digit v"
  have v: "v = ip @ r" by (simp add: ip_def r_def)
  have ip: "list_all is_digit ip"
    unfolding ip_def by (rule takeWhile_all)
  have str: "float_of_str v =
     (case r of
        [] \<Rightarrow> if ip = [] then Inl ValueError else Inr (round_to_double (digits_value ip) 1)
      | c # fp \<Rightarrow>
          if c = CHR ''.'' \<and> list_all is_digit fp \<and> ip @ fp \<noteq> []
          then Inr (round_to_double (digits_value (ip @ fp)) (10 ^ length fp))
          else Inl ValueError)"
    unfolding float_of_str_def Let_def ip_def r_def ..
  show ?thesis
  proof (cases r)
    case Nil
    then have rd: "round_to_double (digits_value ip) 1 = Finite m e"
      using assms by (simp add: str split: if_splits)
    have d: "dropWhile is_digit v = []" using Nil by (simp add: r_def)
    have f: "filter is_digit v = ip" using Nil ip by (simp add: v filter_digits_run)
    have "decimal_value v = real_of_int (digits_value ip) / real_of_int 1"
      unfolding decimal_value_def d f by simp
    moreover have "0 \<le> digits_value ip" using digits_value_bound [OF ip] by simp
    ultimately show ?thesis
      using round_to_double_repr [OF _ _ rd] by simp
  next
    case (Cons c fp)
    then have c: "c = CHR ''.''" and fp: "list_all is_digit fp"
      and rd: "round_to_double (digits_value (ip @ fp)) (10 ^ length fp) = Finite m e"
      using assms by (simp_all add: str split: if_splits)
    have all: "list_all is_digit (ip @ fp)" using ip fp by simp
    have f: "filter is_digit v = ip @ fp"
      using ip fp by (simp add: v Cons c filter_digits_run is_digit_def)
    have d: "dropWhile is_digit v = c # fp" using Cons by (simp add: r_def)
    have "decimal_value v = real_of_int (digits_value (ip @ fp)) / real_of_int (10 ^ length fp)"
      unfolding decimal_value_def d f by simp
    moreover have "0 \<le> digits_value (ip @ fp)" using digits_value_bound [OF all] by simp
    moreover have "(0::int) < 10 ^ length fp" by simp
    ultimately show ?thesis
      using round_to_double_repr [OF _ _ rd] by simp
  qed
qed

text \<open>
  Claim C6. The size tokens of the specification: \<open>4.2M\<close> is 4404019 bytes, \<open>512\<close> is
  512, \<open>1G\<close> is 1073741824, \<open>garbage\<close> is 0 and \<open>512B\<close> is 512. In general, let \<open>v\<close> be
  a run of digits and dots that \<open>float\<close> reads as the double \<open>m * 2 ^ e\<close>, which is the
  double nearest to the decimal value of \<open>v\<close>. The tokens \<open>v\<close> and \<open>vB\<close> give the integer
  part of that double. The tokens \<open>vK\<close>, \<open>vM\<close>, \<open>vG\<close>, \<open>vT\<close>, with or without a final
  \<open>B\<close>, give the integer part of the double times \<open>1024\<close>, \<open>1024 ^ 2\<close>, \<open>1024 ^ 3\<close>,
  \<open>1024 ^ 4\<close>: the result is truncated, not rounded (and OverflowError is raised when the
  product reaches \<open>2 ^ 1024\<close>).
\<close>

theorem parse_file_size_values:
  "parse_file_size ''4.2M'' = Inr 4404019
   \<and> parse_file_size ''512'' = Inr 512
   \<and> parse_file_size ''1G'' = Inr 1073741824
   \<and> parse_file_size ''garbage'' = Inr 0
   \<and> parse_file_size ''512B'' = Inr 512
   \<and> (v \<noteq> [] \<and> list_all digit_or_dot v \<and> float_of_str v = Inr (Finite m e) \<longrightarrow>
        \<bar>float_val m e - decimal_value v\<bar> \<le> 2 powi (e - 1)
        \<and> parse_file_size v = Inr \<lfloor>float_val m e\<rfloor>
        \<and> parse_file_size (v @ ''B'') = Inr \<lfloor>float_val m e\<rfloor>
        \<and> parse_file_size (v @ ''K'') = truncated_product m e (1024 ^ 1)
        \<and> parse_file_size (v @ ''KB'') = truncated_product m e (1024 ^ 1)
        \<and> parse_file_size (v @ ''M'') = truncated_product m e (1024 ^ 2)
        \<and> parse_file_size (v @ ''MB'') = truncated_product m e (1024 ^ 2)
        \<and> parse_file_size (v @ ''G'') = truncated_product m e (1024 ^ 3)
        \<and> parse_file_size (v @ ''GB'') = truncated_product m e (1024 ^ 3)
        \<and> parse_file_size (v @ ''T'') = truncated_product m e (1024 ^ 4)
        \<and> parse_file_size (v @ ''TB'') = truncated_product m e (1024 ^ 4))"
proof -
  have ex: "parse_file_size ''4.2M'' = Inr 4404019
   \<and> parse_file_size ''512'' = Inr 512
   \<and> parse_file_size ''1G'' = Inr 1073741824
   \<and> parse_file_size ''garbage'' = Inr 0
   \<and> parse_file_size ''512B'' = Inr 512"
    by code_simp
  have gen: "\<bar>float_val m e - decimal_value v\<bar> \<le> 2 powi (e - 1)
        \<and> parse_file_size v = Inr \<lfloor>float_val m e\<rfloor>
        \<and> parse_file_size (v @ ''B'') = Inr \<lfloor>float_val m e\<rfloor>
        \<and> parse_file_size (v @ ''K'') = truncated_product m e (1024 ^ 1)
        \<and> parse_file_size (v @ ''KB'') = truncated_product m e (1024 ^ 1)
        \<and> parse_file_size (v @ ''M'') = truncated_product m e (1024 ^ 2)
        \<and> parse_file_size (v @ ''MB'') = truncated_product m e (1024 ^ 2)
        \<and> parse_file_size (v @ ''G'') = truncated_product m e (1024 ^ 3)
        \<and> parse_file_size (v @ ''GB'') = truncated_product m e (1024 ^ 3)
        \<and> parse_file_size (v @ ''T'') = truncated_product m e (1024 ^ 4)
        \<and> parse_file_size (v @ ''TB'') = truncated_product m e (1024 ^ 4)"
    if h: "v \<noteq> []" "list_all digit_or_dot v" "float_of_str v = Inr (Finite m e)"
  proof -
    from float_of_str_nearest [OF h(3)]
    have r: "0 \<le> m" "m \<le> 2 ^ 53" "- 1074 \<le> e"
      and near: "\<bar>float_val m e - decimal_value v\<bar> \<le> 2 powi (e - 1)"
      by simp_all
    note u = parse_file_size_units [OF h]
    note p = float_mul_multiplier [OF r]
    show ?thesis
      using near u by (simp only: p int_of_float_floor)
  qed
  from ex gen show ?thesis by blast
qed

theorem parse_file_size_values_witness:
  "''1.9'' \<noteq> [] \<and> list_all digit_or_dot ''1.9''
   \<and> float_of_str ''1.9'' = Inr (Finite 8556839292003942 (- 52))
   \<and> parse_file_size ''1.9'' = Inr \<lfloor>float_val 8556839292003942 (- 52)\<rfloor>
   \<and> parse_file_size ''1.9'' = Inr 1
   \<and> parse_file_size (''1.9'' @ ''K'') = truncated_product 8556839292003942 (- 52) (1024 ^ 1)
   \<and> parse_file_size ''1.9K'' = Inr 1945"
proof -
  have h: "''1.9'' \<noteq> [] \<and> list_all digit_or_dot ''1.9''
      \<and> float_of_str ''1.9'' = Inr (Finite 8556839292003942 (- 52))"
    by code_simp
  have i: "parse_file_size ''1.9'' = Inr 1 \<and> parse_file_size ''1.9K'' = Inr 1945"
    by code_simp
  from parse_file_size_values [of "''1.9''" 8556839292003942 "- 52"] h
  have "parse_file_size ''1.9'' = Inr \<lfloor>float_val 8556839292003942 (- 52)\<rfloor>
        \<and> parse_file_size (''1.9'' @ ''K'') = truncated_product 8556839292003942 (- 52) (1024 ^ 1)"
    by blast
  with h i show ?thesis by blast
qed

subsection \<open>When \<open>parse_file_size\<close> returns\<close>

lemma float_of_str_below:
  assumes "plain_decimal v" "list_all digit_or_dot v" "length v \<le> 280"
  shows "\<exists>x. float_of_str v = Inr x \<and> float_below 931 x"
proof -
  define ip where "ip = takeWhile is_digit v"
  define r where "r = dropWhile is_digit v"
  have v: "v = ip @ r" by (simp add: ip_def r_def)
  have ip: "list_all is_digit ip"
    unfolding ip_def by (rule takeWhile_all)
  have nodot: "filter (\<lambda>c. c = CHR ''.'') ip = []"
    using ip by (rule digits_no_dot)
  have digit: "list_ex is_digit v" and dots: "length (filter (\<lambda>c. c = CHR ''.'') v) \<le> 1"
    using assms(1) by (simp_all add: plain_decimal_def)
  have str: "float_of_str v =
     (case r of
        [] \<Rightarrow> if ip = [] then Inl ValueError else Inr (round_to_double (digits_value ip) 1)
      | c # fp \<Rightarrow>
          if c = CHR ''.'' \<and> list_all is_digit fp \<and> ip @ fp \<noteq> []
          then Inr (round_to_double (digits_value (ip @ fp)) (10 ^ length fp))
          else Inl ValueError)"
    unfolding float_of_str_def Let_def ip_def r_def ..
  show ?thesis
  proof (cases r)
    case Nil
    then have vip: "ip = v" using v by simp
    have "v \<noteq> []" using digit by auto
    moreover have "float_below 931 (round_to_double (digits_value ip) 1)"
      using ip assms(3) by (intro decimal_below) (simp_all add: vip)
    ultimately show ?thesis
      by (simp add: str Nil vip)
  next
    case (Cons c fp)
    have "\<not> is_digit c"
      using Cons unfolding r_def by (rule dropWhile_head)
    moreover have "digit_or_dot c"
      using assms(2) by (simp add: v Cons)
    ultimately have c: "c = CHR ''.''"
      by (simp add: digit_or_dot_def)
    have v2: "v = ip @ CHR ''.'' # fp" using v Cons c by simp
    have "length (filter (\<lambda>c. c = CHR ''.'') v) = Suc (length (filter (\<lambda>c. c = CHR ''.'') fp))"
      by (simp add: v2 nodot)
    then have "filter (\<lambda>c. c = CHR ''.'') fp = []"
      using dots by simp
    moreover have "list_all digit_or_dot fp"
      using assms(2) by (simp add: v2)
    ultimately have fp: "list_all is_digit fp"
      by (intro no_dot_digits)
    have "list_ex is_digit (ip @ fp)"
      using digit by (simp add: v2 is_digit_def)
    then have ne: "ip @ fp \<noteq> []" by auto
    have all: "list_all is_digit (ip @ fp)" using ip fp by simp
    have "length v = Suc (length (ip @ fp))" by (simp add: v2)
    then have len: "length (ip @ fp) \<le> 280" using assms(3) by simp
    have "float_below 931 (round_to_double (digits_value (ip @ fp)) (10 ^ length fp))"
      by (rule decimal_below [OF all len]) simp
    then show ?thesis
      using fp ne by (simp add: str Cons c)
  qed
qed

lemma multiplier_range:
  "0 \<le> (case map_of SIZE_MULTIPLIERS u of Some k \<Rightarrow> k | None \<Rightarrow> 1) \<and>
   (case map_of SIZE_MULTIPLIERS u of Some k \<Rightarrow> k | None \<Rightarrow> 1) < 1 * 2 ^ 41"
  by (simp add: SIZE_MULTIPLIERS_def)

lemma multiplier_below:
  "float_below 41 (float_of_int (case map_of SIZE_MULTIPLIERS u of Some k \<Rightarrow> k | None \<Rightarrow> 1))"
  unfolding float_of_int_def
proof (rule round_to_double_below)
  show "0 \<le> (case map_of SIZE_MULTIPLIERS u of Some k \<Rightarrow> k | None \<Rightarrow> 1)"
    using multiplier_range [of u] by blast
  show "(case map_of SIZE_MULTIPLIERS u of Some k \<Rightarrow> k | None \<Rightarrow> 1) < 1 * 2 ^ 41"
    using multiplier_range [of u] by blast
qed simp_all

text \<open>
  Without a bound on the length of the run the float can be \<open>inf\<close>, and \<open>int\<close> raises
  OverflowError on it: a run of 309 nines is above the largest double.
\<close>

lemma parse_file_size_overflow:
  "parse_file_size (replicate 309 (CHR ''9'')) = Inl OverflowError"
  by code_simp

text \<open>
  Claim C1, as amended. Whenever the trimmed token does not match the size pattern of
  the code (a non-empty run of digits and dots, then optionally one of K, M, G, T, then
  optionally \<open>B\<close>), \<open>parse_file_size\<close> returns 0. Whenever the leading run of digits and
  dots of the trimmed token has at most one dot, at least one digit and at most 280
  characters, \<open>parse_file_size\<close> returns a non-negative integer.
\<close>

theorem parse_file_size_returns:
  "(\<not> size_pattern (strip token) \<longrightarrow> parse_file_size token = Inr 0) \<and>
   (plain_decimal (takeWhile digit_or_dot (strip token)) \<and>
    length (takeWhile digit_or_dot (strip token)) \<le> 280 \<longrightarrow>
      (\<exists>n. parse_file_size token = Inr n \<and> 0 \<le> n))"
proof (intro conjI impI)
  assume "\<not> size_pattern (strip token)"
  then have "size_match (strip token) = None"
    using size_match_pattern [of token] by blast
  then show "parse_file_size token = Inr 0"
    by (simp add: parse_file_size_def)
next
  let ?v = "takeWhile digit_or_dot (strip token)"
  assume h: "plain_decimal ?v \<and> length ?v \<le> 280"
  have dd: "list_all digit_or_dot ?v"
    by (rule takeWhile_all)
  from float_of_str_below [OF _ dd] h obtain x where
    x: "float_of_str ?v = Inr x" "float_below 931 x" by blast
  show "\<exists>n. parse_file_size token = Inr n \<and> 0 \<le> n"
  proof (cases "size_match (strip token)")
    case None
    then show ?thesis by (simp add: parse_file_size_def)
  next
    case (Some vu)
    obtain v u where vu: "vu = (v, u)" by (cases vu)
    have v: "v = ?v" using size_match_value Some vu by blast
    show ?thesis
    proof (cases u)
      case None
      then show ?thesis
        using int_of_float_below [OF x(2)]
        by (simp add: parse_file_size_def Some vu v x(1))
    next
      case (Some c)
      have "float_below (931 + 41 + 1)
              (float_mul x (float_of_int (case map_of SIZE_MULTIPLIERS c of Some k \<Rightarrow> k | None \<Rightarrow> 1)))"
        by (rule float_mul_below [OF x(2) multiplier_below]) simp
      from int_of_float_below [OF this] show ?thesis
        using \<open>size_match (strip token) = Some vu\<close>
        by (simp add: parse_file_size_def vu v x(1) Some)
    qed
  qed
qed

theorem parse_file_size_returns_witness:
  "\<not> size_pattern (strip ''garbage'') \<and> parse_file_size ''garbage'' = Inr 0
   \<and> plain_decimal (takeWhile digit_or_dot (strip '' 4.2M ''))
   \<and> length (takeWhile digit_or_dot (strip '' 4.2M '')) \<le> 280
   \<and> (\<exists>n. parse_file_size '' 4.2M '' = Inr n \<and> 0 \<le> n)"
proof -
  have a: "\<not> size_pattern (strip ''garbage'')"
    by code_simp
  have b: "plain_decimal (takeWhile digit_or_dot (strip '' 4.2M ''))
           \<and> length (takeWhile digit_or_dot (strip '' 4.2M '')) \<le> 280"
    by code_simp
  from parse_file_size_returns [of "''garbage''"] a
  have c: "parse_file_size ''garbage'' = Inr 0" by blast
  from parse_file_size_returns [of "'' 4.2M ''"] b
  have d: "\<exists>n. parse_file_size '' 4.2M '' = Inr n \<and> 0 \<le> n" by blast
  from a b c d show ?thesis by blast
qed

text \<open>
  The claim as first stated fails in two ways. The run \<open>1.2.3\<close> matches the size pattern
  and \<open>float\<close> raises ValueError on it, so \<open>parse_file_size\<close> raises. The token \<open>1.\<close>
  is not in the recognized format as the specification words it, and \<open>parse_file_size\<close>
  returns 1 for it, not 0.
\<close>

theorem parse_file_size_total_counterexample:
  "parse_file_size ''1.2.3'' = Inl ValueError
   \<and> \<not> spec_size_format ''1.''
   \<and> parse_file_size ''1.'' = Inr 1"
  by code_simp

end
